theory Spec2Isabelle
  imports Main "HOL-Library.Sublist" "HOL-Library.Word"
begin

section \<open>Go string primitives\<close>

text \<open>
  Go strings are byte sequences; they are modelled as \<open>string\<close> (a list of
  characters). \<open>s[i:j]\<close> is \<open>take (j - i) (drop i s)\<close>, \<open>s[:i]\<close> is
  \<open>take i s\<close> and \<open>s[i:]\<close> is \<open>drop i s\<close>. \<open>strings.Index\<close> returns
  \<open>-1\<close> when the separator does not occur; the model returns \<open>None\<close> there
  and \<open>Some i\<close> for the offset of the first occurrence.
\<close>

primrec Index :: "string \<Rightarrow> string \<Rightarrow> nat option" where
  "Index [] sep = (if sep = [] then Some 0 else None)"
| "Index (c # cs) sep =
     (if prefix sep (c # cs) then Some 0 else map_option Suc (Index cs sep))"

primrec LastIndex :: "string \<Rightarrow> string \<Rightarrow> nat option" where
  "LastIndex [] sep = (if sep = [] then Some 0 else None)"
| "LastIndex (c # cs) sep =
     (case LastIndex cs sep of
        Some i \<Rightarrow> Some (Suc i)
      | None \<Rightarrow> if prefix sep (c # cs) then Some 0 else None)"

definition Contains :: "string \<Rightarrow> string \<Rightarrow> bool" where
  "Contains s substr = (Index s substr \<noteq> None)"

definition HasSuffix :: "string \<Rightarrow> string \<Rightarrow> bool" where
  "HasSuffix s suf = suffix suf s"

text \<open>
  \<open>strings.TrimSpace\<close> removes the leading and the trailing white space, as
  \<open>unicode.IsSpace\<close> defines it: the six ASCII characters tab, line feed, vertical
  tab, form feed, carriage return and space, and the code points U+0085, U+00A0,
  U+1680, U+2000 to U+200A, U+2028, U+2029, U+202F, U+205F and U+3000. A Go string is
  a byte sequence and the code points are read as UTF-8, so \<open>spaces\<close> lists the
  encodings. A byte that begins no well-formed sequence is read as U+FFFD, which is
  not white space, and the trimming stops there.
\<close>

definition spaces :: "string list" where
  "spaces =
     [[CHR 0x09], [CHR 0x0A], [CHR 0x0B], [CHR 0x0C], [CHR 0x0D], [CHR 0x20],
      [CHR 0xC2, CHR 0x85], [CHR 0xC2, CHR 0xA0], [CHR 0xE1, CHR 0x9A, CHR 0x80],
      [CHR 0xE2, CHR 0x80, CHR 0x80], [CHR 0xE2, CHR 0x80, CHR 0x81], [CHR 0xE2, CHR 0x80, CHR 0x82],
      [CHR 0xE2, CHR 0x80, CHR 0x83], [CHR 0xE2, CHR 0x80, CHR 0x84], [CHR 0xE2, CHR 0x80, CHR 0x85],
      [CHR 0xE2, CHR 0x80, CHR 0x86], [CHR 0xE2, CHR 0x80, CHR 0x87], [CHR 0xE2, CHR 0x80, CHR 0x88],
      [CHR 0xE2, CHR 0x80, CHR 0x89], [CHR 0xE2, CHR 0x80, CHR 0x8A], [CHR 0xE2, CHR 0x80, CHR 0xA8],
      [CHR 0xE2, CHR 0x80, CHR 0xA9], [CHR 0xE2, CHR 0x80, CHR 0xAF], [CHR 0xE2, CHR 0x81, CHR 0x9F],
      [CHR 0xE3, CHR 0x80, CHR 0x80]]"

text \<open>
  \<open>trimLeading ws s\<close> removes from the front of \<open>s\<close> every leading occurrence of one of
  the byte sequences \<open>ws\<close>. The trailing white space is removed in the same way from
  the reversed string.
\<close>

fun trimLeading :: "string list \<Rightarrow> string \<Rightarrow> string" where
  "trimLeading ws [] = []"
| "trimLeading ws (c # cs) =
     (case find (\<lambda>w. w \<noteq> [] \<and> prefix w (c # cs)) ws of
        None \<Rightarrow> c # cs
      | Some w \<Rightarrow> trimLeading ws (drop (length w - 1) cs))"

definition TrimSpace :: "string \<Rightarrow> string" where
  "TrimSpace s = rev (trimLeading (map rev spaces) (rev (trimLeading spaces s)))"

section \<open>Tool-intent parser (internal/util/tool\_intent\_parser.go)\<close>

text \<open>
  \<open>Arguments\<close> is a Go \<open>map[string]any\<close>; the parser only ever stores a string
  under the key \<open>question\<close>, so the values are strings here.
\<close>

record ToolIntent =
  Name :: string
  Arguments :: "string \<rightharpoonup> string"
  Raw :: string

text \<open>
  \<open>findTagBlock\<close> returns \<open>(-1, -1, "")\<close> when the block is not complete; the
  model returns \<open>None\<close> there, and \<open>Some (start, end, raw)\<close> otherwise.
\<close>

definition findTagBlock :: "string \<Rightarrow> string \<Rightarrow> (nat \<times> nat \<times> string) option" where
  "findTagBlock input tag =
     (let opn = ''<'' @ tag @ ''>'';
          cls = ''</'' @ tag @ ''>''
      in case Index input opn of
           None \<Rightarrow> None
         | Some start \<Rightarrow>
             (case Index (drop start input) cls of
                None \<Rightarrow> None
              | Some e \<Rightarrow>
                  let fin = start + e + length cls
                  in Some (start, fin, take (fin - start) (drop start input))))"

definition extractTagValue :: "string \<Rightarrow> string \<Rightarrow> string" where
  "extractTagValue raw tag =
     (let opn = ''<'' @ tag @ ''>'';
          cls = ''</'' @ tag @ ''>''
      in case Index raw opn of
           None \<Rightarrow> []
         | Some start0 \<Rightarrow>
             let start = start0 + length opn
             in (case Index (drop start raw) cls of
                   None \<Rightarrow> []
                 | Some e \<Rightarrow> take e (drop start raw)))"

lemma Index_bound: "Index s sep = Some i \<Longrightarrow> i + length sep \<le> length s"
proof (induction s arbitrary: i)
  case Nil
  then show ?case by (simp split: if_splits)
next
  case (Cons c cs)
  show ?case
  proof (cases "prefix sep (c # cs)")
    case True
    then have "length sep \<le> length (c # cs)" by (rule prefix_length_le)
    with True Cons.prems show ?thesis by simp
  next
    case False
    with Cons.prems obtain j where "Index cs sep = Some j" "i = Suc j" by auto
    with Cons.IH show ?thesis by fastforce
  qed
qed

lemma findTagBlock_bounds:
  assumes "findTagBlock input tag = Some (start, fin, raw)"
  shows "start < fin \<and> fin \<le> length input"
proof -
  from assms obtain e where
    s: "Index input (''<'' @ tag @ ''>'') = Some start" and
    e: "Index (drop start input) (''</'' @ tag @ ''>'') = Some e" and
    f: "fin = start + e + length (''</'' @ tag @ ''>'')"
    by (auto simp: findTagBlock_def Let_def split: option.splits)
  from Index_bound[OF e] f show ?thesis by auto
qed

text \<open>
  The \<open>for\<close> loop of \<open>ParseToolIntents\<close>, with its two loop variables
  \<open>remaining\<close> and \<open>intents\<close>. Every iteration removes a non-empty block, so the
  loop ends.
\<close>

function ParseToolIntents_loop :: "string \<Rightarrow> ToolIntent list \<Rightarrow> string \<times> ToolIntent list" where
  "ParseToolIntents_loop remaining intents =
     (case findTagBlock remaining ''websearch'' of
        None \<Rightarrow> (remaining, intents)
      | Some (start, fin, raw) \<Rightarrow>
          let question = extractTagValue raw ''question'';
              intents' =
                (if question \<noteq> []
                 then intents @ [\<lparr>Name = ''websearch'',
                                  Arguments = [''question'' \<mapsto> TrimSpace question],
                                  Raw = raw\<rparr>]
                 else intents)
          in ParseToolIntents_loop (take start remaining @ drop fin remaining) intents')"
  by pat_completeness auto
termination
proof (relation "measure (\<lambda>(remaining, intents). length remaining)")
  show "wf (measure (\<lambda>(remaining, intents). length remaining))" by simp
next
  fix remaining :: string and intents :: "ToolIntent list" and x2 start y fin raw xa xb
  assume "findTagBlock remaining ''websearch'' = Some x2" "(start, y) = x2" "(fin, raw) = y"
  then have "findTagBlock remaining ''websearch'' = Some (start, fin, raw)" by simp
  from findTagBlock_bounds[OF this]
  show "((take start remaining @ drop fin remaining, xb), remaining, intents)
          \<in> measure (\<lambda>(remaining, intents). length remaining)"
    by auto
qed

definition ParseToolIntents :: "string \<Rightarrow> string \<times> ToolIntent list" where
  "ParseToolIntents text = ParseToolIntents_loop text []"

record ToolIntentBuffer =
  buffer :: string
  maxBuffer :: nat

definition NewToolIntentBuffer :: ToolIntentBuffer where
  "NewToolIntentBuffer = \<lparr>buffer = [], maxBuffer = 8192\<rparr>"

definition splitFlushable :: "string \<Rightarrow> string \<times> string" where
  "splitFlushable text =
     (let fallback =
            (case LastIndex text ''<'' of
               None \<Rightarrow> (text, [])
             | Some idx \<Rightarrow>
                 if Contains (drop idx text) ''>'' then (text, [])
                 else (take idx text, drop idx text))
      in case Index text ''<websearch>'' of
           None \<Rightarrow> fallback
         | Some websearchStart \<Rightarrow>
             (case Index (drop websearchStart text) ''</websearch>'' of
                None \<Rightarrow> (take websearchStart text, drop websearchStart text)
              | Some websearchEnd \<Rightarrow>
                  let afterComplete = websearchStart + websearchEnd + length ''</websearch>''
                  in if afterComplete < length text
                     then (case Index (drop afterComplete text) ''<websearch>'' of
                             None \<Rightarrow> fallback
                           | Some nextWebsearchStart \<Rightarrow>
                               (take (afterComplete + nextWebsearchStart) text,
                                drop (afterComplete + nextWebsearchStart) text))
                     else fallback))"

text \<open>
  \<open>Feed\<close> mutates the buffer of its receiver; the model returns the updated buffer
  beside the two results.
\<close>

definition Feed :: "ToolIntentBuffer \<Rightarrow> string \<Rightarrow> (string \<times> ToolIntent list) \<times> ToolIntentBuffer" where
  "Feed b text =
     (if text = [] then (([], []), b)
      else
        let combined = buffer b @ text;
            (remaining, intents) = ParseToolIntents combined;
            (flushable, keep) = splitFlushable remaining
        in if length keep > maxBuffer b
           then ((keep, intents), b\<lparr>buffer := []\<rparr>)
           else ((flushable, intents), b\<lparr>buffer := keep\<rparr>))"

section \<open>Usage statistics: retention filter and persistence (internal/usage)\<close>

subsection \<open>Time\<close>

text \<open>
  A \<open>time.Time\<close> is the instant it denotes, in nanoseconds since the epoch; its range
  (hundreds of billions of years) is far wider than any instant reached here, so it is
  an unbounded integer. A \<open>time.Duration\<close> is an \<open>int64\<close> count of nanoseconds
  and its arithmetic wraps around; a Go \<open>int\<close> is taken as 64 bits wide.
\<close>

type_synonym Time = int
type_synonym Duration = "64 word"

definition Hour :: Duration where
  "Hour = 3600000000000"

definition Add :: "Time \<Rightarrow> Duration \<Rightarrow> Time" where
  "Add t d = t + sint d"

definition After :: "Time \<Rightarrow> Time \<Rightarrow> bool" where
  "After t u = (u < t)"

subsection \<open>Snapshot types\<close>

text \<open>
  The snapshot types are declared in a file of the package that holds no code of
  \<open>stripRequestDetails\<close>; their fields are the ones the code, the tests and the
  management handler read. Go's field names repeat across the structs
  (\<open>TotalRequests\<close>, \<open>TotalTokens\<close>), so the fields of the nested structs carry the
  struct as a prefix. A Go map is the list of its entries, in the order the
  \<open>range\<close> loop visits them.
\<close>

record TokenStats =
  tokens_TotalTokens :: int

record RequestDetail =
  Timestamp :: Time
  Source :: string
  AuthIndex :: string
  Tokens :: TokenStats
  Failed :: bool

record ModelSnapshot =
  model_TotalRequests :: int
  model_TotalTokens :: int
  Details :: "RequestDetail list"

record APISnapshot =
  api_TotalRequests :: int
  api_TotalTokens :: int
  Models :: "(string \<times> ModelSnapshot) list"

record StatisticsSnapshot =
  TotalRequests :: int
  SuccessCount :: int
  FailureCount :: int
  TotalTokens :: int
  APIs :: "(string \<times> APISnapshot) list"

subsection \<open>stripRequestDetails\<close>

definition cutoffTime :: "Time \<Rightarrow> 64 word \<Rightarrow> Time" where
  "cutoffTime now retentionDays =
     (let retentionDays' = (if sint retentionDays \<le> 0 then 30 else retentionDays)
      in Add now (- retentionDays' * 24 * Hour))"

text \<open>The body of the loop over the models of one API.\<close>

definition stripModel :: "Time \<Rightarrow> ModelSnapshot \<Rightarrow> ModelSnapshot" where
  "stripModel cutoff modelStats =
     (if Details modelStats = [] then modelStats
      else modelStats\<lparr>Details := filter (\<lambda>detail. After (Timestamp detail) cutoff) (Details modelStats)\<rparr>)"

text \<open>The body of the loop over the APIs of the snapshot.\<close>

definition stripAPI :: "Time \<Rightarrow> APISnapshot \<Rightarrow> APISnapshot" where
  "stripAPI cutoff apiStats =
     (if Models apiStats = [] then apiStats
      else apiStats\<lparr>Models := map (\<lambda>(modelName, modelStats). (modelName, stripModel cutoff modelStats))
                                    (Models apiStats)\<rparr>)"

text \<open>
  The function takes a pointer and updates the snapshot in place; the model takes the
  snapshot (\<open>None\<close> for the nil pointer) and the instant \<open>time.Now()\<close> returns, and
  gives back the updated snapshot.
\<close>

definition stripRequestDetails :: "Time \<Rightarrow> StatisticsSnapshot option \<Rightarrow> 64 word \<Rightarrow> StatisticsSnapshot option" where
  "stripRequestDetails now snapshot retentionDays =
     (case snapshot of
        None \<Rightarrow> None
      | Some snap \<Rightarrow>
          if APIs snap = [] then Some snap
          else Some (snap\<lparr>APIs := map (\<lambda>(apiKey, apiStats). (apiKey, stripAPI (cutoffTime now retentionDays) apiStats))
                                       (APIs snap)\<rparr>))"

subsection \<open>Files, JSON and the statistics store\<close>

text \<open>
  The file system is a map from paths to contents, the set of operations the
  operating system refuses (with an error other than "not exist"), and the trace of
  the operations performed so far.
\<close>

datatype fs_op =
    OpReadFile string
  | OpMkdirAll string
  | OpWriteFile string string
  | OpRename string string

datatype os_error = ErrNotExist | ErrOther

record FileSystem =
  files :: "string \<rightharpoonup> string"
  refused :: "fs_op \<Rightarrow> bool"
  trace :: "fs_op list"

definition os_ReadFile :: "FileSystem \<Rightarrow> string \<Rightarrow> (os_error + string) \<times> FileSystem" where
  "os_ReadFile fsys path =
     (let fsys' = fsys\<lparr>trace := trace fsys @ [OpReadFile path]\<rparr>
      in if refused fsys (OpReadFile path) then (Inl ErrOther, fsys')
         else case files fsys path of
                None \<Rightarrow> (Inl ErrNotExist, fsys')
              | Some data \<Rightarrow> (Inr data, fsys'))"

definition os_MkdirAll :: "FileSystem \<Rightarrow> string \<Rightarrow> os_error option \<times> FileSystem" where
  "os_MkdirAll fsys dir =
     (let fsys' = fsys\<lparr>trace := trace fsys @ [OpMkdirAll dir]\<rparr>
      in if refused fsys (OpMkdirAll dir) then (Some ErrOther, fsys') else (None, fsys'))"

definition os_WriteFile :: "FileSystem \<Rightarrow> string \<Rightarrow> string \<Rightarrow> os_error option \<times> FileSystem" where
  "os_WriteFile fsys path data =
     (let fsys' = fsys\<lparr>trace := trace fsys @ [OpWriteFile path data]\<rparr>
      in if refused fsys (OpWriteFile path data) then (Some ErrOther, fsys')
         else (None, fsys'\<lparr>files := (files fsys)(path \<mapsto> data)\<rparr>))"

definition os_Rename :: "FileSystem \<Rightarrow> string \<Rightarrow> string \<Rightarrow> os_error option \<times> FileSystem" where
  "os_Rename fsys oldpath newpath =
     (let fsys' = fsys\<lparr>trace := trace fsys @ [OpRename oldpath newpath]\<rparr>
      in if refused fsys (OpRename oldpath newpath) then (Some ErrOther, fsys')
         else case files fsys oldpath of
                None \<Rightarrow> (Some ErrNotExist, fsys')
              | Some data \<Rightarrow> (None, fsys'\<lparr>files := (files fsys)(oldpath := None, newpath \<mapsto> data)\<rparr>))"

record ImportPayload =
  import_Version :: int
  import_Usage :: StatisticsSnapshot

record ExportPayload =
  export_Version :: int
  ExportedAt :: Time
  export_Usage :: StatisticsSnapshot

record MergeResult =
  Added :: int
  Skipped :: int

text \<open>
  What the functions under study call and this development does not define: the
  methods \<open>Replace\<close>, \<open>MergeSnapshot\<close> and \<open>Snapshot\<close> of the store
  \<open>RequestStatistics\<close> (type \<open>'st\<close>), the JSON codec (\<open>None\<close> when it returns an
  error), \<open>filepath.Dir\<close>, and the two readings of the clock in \<open>SaveToFile\<close>.
\<close>

record 'st Env =
  Replace :: "'st \<Rightarrow> StatisticsSnapshot \<Rightarrow> 'st"
  MergeSnapshot :: "'st \<Rightarrow> StatisticsSnapshot \<Rightarrow> MergeResult \<times> 'st"
  Snapshot :: "'st \<Rightarrow> StatisticsSnapshot"
  json_Unmarshal :: "string \<Rightarrow> ImportPayload option"
  json_MarshalIndent :: "ExportPayload \<Rightarrow> string option"
  filepath_Dir :: "string \<Rightarrow> string"
  now_strip :: Time
  now_export :: Time

datatype error =
    ReadUsageStats
  | ParseUsageStats
  | UnsupportedVersion int
  | EncodeUsageStats
  | PrepareUsageStatsDir
  | WriteUsageStats
  | FinalizeUsageStats

subsection \<open>LoadFromFile and SaveToFile\<close>

text \<open>
  The receiver is a pointer: \<open>None\<close> is the nil receiver. The result is the error
  (\<open>None\<close> for a nil error), the file system and the store after the call.
\<close>

definition LoadFromFile :: "'st Env \<Rightarrow> FileSystem \<Rightarrow> 'st option \<Rightarrow> string \<Rightarrow> error option \<times> FileSystem \<times> 'st option" where
  "LoadFromFile env fsys s path =
     (case s of
        None \<Rightarrow> (None, fsys, s)
      | Some st \<Rightarrow>
          if path = [] then (None, fsys, s)
          else case os_ReadFile fsys path of
                 (Inl ErrNotExist, fsys') \<Rightarrow> (None, fsys', s)
               | (Inl ErrOther, fsys') \<Rightarrow> (Some ReadUsageStats, fsys', s)
               | (Inr data, fsys') \<Rightarrow>
                   if length data = 0 then (None, fsys', s)
                   else case json_Unmarshal env data of
                          None \<Rightarrow> (Some ParseUsageStats, fsys', s)
                        | Some payload \<Rightarrow>
                            if import_Version payload \<noteq> 0 \<and> import_Version payload \<noteq> 1
                            then (Some (UnsupportedVersion (import_Version payload)), fsys', s)
                            else (None, fsys', Some (Replace env st (import_Usage payload))))"

definition SaveToFile :: "'st Env \<Rightarrow> FileSystem \<Rightarrow> 'st option \<Rightarrow> string \<Rightarrow> 64 word \<Rightarrow> error option \<times> FileSystem \<times> 'st option" where
  "SaveToFile env fsys s path retentionDays =
     (case s of
        None \<Rightarrow> (None, fsys, s)
      | Some st \<Rightarrow>
          if path = [] then (None, fsys, s)
          else
            case stripRequestDetails (now_strip env) (Some (Snapshot env st)) retentionDays of
              None \<Rightarrow> (None, fsys, s)
            | Some snapshot \<Rightarrow>
                let payload = \<lparr>export_Version = 1, ExportedAt = now_export env, export_Usage = snapshot\<rparr>
                in case json_MarshalIndent env payload of
                     None \<Rightarrow> (Some EncodeUsageStats, fsys, s)
                   | Some data \<Rightarrow>
                       (case os_MkdirAll fsys (filepath_Dir env path) of
                          (Some e, fsys1) \<Rightarrow> (Some PrepareUsageStatsDir, fsys1, s)
                        | (None, fsys1) \<Rightarrow>
                            let tmpPath = path @ ''.tmp''
                            in (case os_WriteFile fsys1 tmpPath data of
                                  (Some e, fsys2) \<Rightarrow> (Some WriteUsageStats, fsys2, s)
                                | (None, fsys2) \<Rightarrow>
                                    (case os_Rename fsys2 tmpPath path of
                                       (Some e, fsys3) \<Rightarrow> (Some FinalizeUsageStats, fsys3, s)
                                     | (None, fsys3) \<Rightarrow> (None, fsys3, s)))))"

subsection \<open>The management import handler (internal/api/handlers/management/usage.go)\<close>

text \<open>
  The handler \<open>h\<close> is a pointer to a struct whose field \<open>usageStats\<close> is a pointer to
  the store; \<open>None\<close> is nil at either level. The request body is \<open>None\<close> when
  \<open>GetRawData\<close> fails. The response is the HTTP status and the JSON body written.
\<close>

datatype response_body =
    ErrorBody string
  | ImportBody int int int int

definition ImportUsageStatistics :: "'st Env \<Rightarrow> 'st option option \<Rightarrow> string option \<Rightarrow> (nat \<times> response_body) \<times> 'st option option" where
  "ImportUsageStatistics env h body =
     (case h of
        None \<Rightarrow> ((400, ErrorBody ''usage statistics unavailable''), h)
      | Some None \<Rightarrow> ((400, ErrorBody ''usage statistics unavailable''), h)
      | Some (Some st) \<Rightarrow>
          (case body of
             None \<Rightarrow> ((400, ErrorBody ''failed to read request body''), h)
           | Some data \<Rightarrow>
               (case json_Unmarshal env data of
                  None \<Rightarrow> ((400, ErrorBody ''invalid json''), h)
                | Some payload \<Rightarrow>
                    if import_Version payload \<noteq> 0 \<and> import_Version payload \<noteq> 1
                    then ((400, ErrorBody ''unsupported version''), h)
                    else
                      let (result, st') = MergeSnapshot env st (import_Usage payload);
                          snapshot = Snapshot env st'
                      in ((200, ImportBody (Added result) (Skipped result)
                                   (TotalRequests snapshot) (FailureCount snapshot)),
                          Some (Some st')))))"

section \<open>PaCoRe streaming transcoder (internal/translator/openai/pacore)\<close>

subsection \<open>Events, chunks and the transcoder state\<close>

text \<open>
  The transcoder returns server-sent events as strings,
  \<open>event: <kind>\ndata: <json>\n\n\<close>, built from fixed JSON templates into which
  \<open>sjson.Set\<close> writes a few fields. An event is modelled by its kind and the fields
  written; the rest of the frame is constant. The identifiers, the model, the tool
  name, the arguments and the stop reason are the Go strings handed to \<open>sjson.Set\<close>.
  The text of a text or thinking delta is a piece that the transcoder cuts out of its
  buffer at a byte offset; for it the event holds the string that \<open>sjson.Set\<close> makes
  of the piece (\<open>sjson_Set\<close> below), which is what a reader of the event gets.
\<close>

datatype content_block =
    TextBlock
  | ThinkingBlock
  | ToolUseBlock string string  \<comment> \<open>\<open>content_block.id\<close>, \<open>content_block.name\<close>\<close>

datatype delta =
    TextDelta string  \<comment> \<open>\<open>delta.text\<close>\<close>
  | ThinkingDelta string  \<comment> \<open>\<open>delta.thinking\<close>\<close>
  | InputJSONDelta string  \<comment> \<open>\<open>delta.partial_json\<close>\<close>

datatype event =
    MessageStart string string  \<comment> \<open>\<open>message.id\<close>, \<open>message.model\<close>\<close>
  | ContentBlockStart int content_block  \<comment> \<open>\<open>index\<close>, \<open>content_block\<close>\<close>
  | ContentBlockDelta int delta  \<comment> \<open>\<open>index\<close>, \<open>delta\<close>\<close>
  | ContentBlockStop int  \<comment> \<open>\<open>index\<close>\<close>
  | MessageDelta string  \<comment> \<open>\<open>delta.stop_reason\<close>\<close>
  | MessageStop

text \<open>
  The bytes of a chunk are read through \<open>gjson\<close> only. \<open>Json content finish\<close> is a
  chunk that \<open>gjson.ValidBytes\<close> accepts, in which the path
  \<open>choices.0.delta.content\<close> reads \<open>content\<close> and the path
  \<open>choices.0.finish_reason\<close> reads \<open>finish\<close> (\<open>String()\<close> of a missing or null value
  is the empty string). \<open>NotJson bytes\<close> is a chunk that is not valid JSON; the code asks
  for its finish reason only when it is empty, where \<open>gjson\<close> finds nothing.
\<close>

datatype chunk =
    Json string string
  | NotJson string

fun gjson_ValidBytes :: "chunk \<Rightarrow> bool" where
  "gjson_ValidBytes (Json content finish) = True"
| "gjson_ValidBytes (NotJson bytes) = False"

fun gjson_content :: "chunk \<Rightarrow> string" where
  "gjson_content (Json content finish) = content"
| "gjson_content (NotJson bytes) = []"

fun gjson_finish_reason :: "chunk \<Rightarrow> string" where
  "gjson_finish_reason (Json content finish) = finish"
| "gjson_finish_reason (NotJson bytes) = []"

fun bytes_of :: "chunk \<Rightarrow> string" where
  "bytes_of (NotJson bytes) = bytes"
| "bytes_of (Json content finish) = []"

datatype State = StateNormal | StateInThinking | StateInToolCall

text \<open>
  The fields of the Go struct, and one more: \<open>UUIDsDrawn\<close> counts the calls of
  \<open>uuid.New()\<close> made for the stream so far. The generator is a supply of
  identifiers, and the count says which one the next call returns. The block indexes
  are Go \<open>int\<close>s that count content blocks from 0, with \<open>-1\<close> for "none"; they are
  integers here.
\<close>

record PaCoReConvertParams =
  State :: State
  Buffer :: string
  MessageStarted :: bool
  MessageID :: string
  Model :: string
  NextContentBlockIndex :: int
  TextContentBlockIndex :: int
  ThinkingContentBlockIndex :: int
  ToolCallBlockIndexes :: "(string \<times> int) list"
  ThinkingAccumulator :: string
  ToolCallAccumulator :: string
  TextContentBlockStarted :: bool
  ThinkingContentBlockStarted :: bool
  UUIDsDrawn :: nat

record ToolCallXML =
  tool_Name :: string
  tool_Parameters :: "(string \<times> string) list"

text \<open>
  The library functions the transcoder calls: the supply behind \<open>uuid.New()\<close>,
  \<open>xml.Unmarshal\<close> into a \<open>ToolCallXML\<close> (\<open>None\<close> when it returns an error) and
  \<open>json.Marshal\<close> of the parameter map.
\<close>

record Library =
  uuid_New :: "nat \<Rightarrow> string"
  xml_Unmarshal :: "string \<Rightarrow> ToolCallXML option"
  json_Marshal :: "(string \<times> string) list \<Rightarrow> string"

definition tagThinkingStart :: string where "tagThinkingStart = ''<thinking>''"
definition tagThinkingEnd :: string where "tagThinkingEnd = ''</thinking>''"
definition tagToolCallStart :: string where "tagToolCallStart = ''<tool_call>''"
definition tagToolCallEnd :: string where "tagToolCallEnd = ''</tool_call>''"

subsection \<open>String values written by \<open>sjson.Set\<close>\<close>

text \<open>
  \<open>sjson.Set\<close> writes a string value as a JSON string, and hands every string with a
  byte outside printable ASCII to \<open>encoding/json\<close>. That encoder walks the string
  with \<open>utf8.DecodeRuneInString\<close> and writes the escape of U+FFFD for every byte at
  which the decoder returns \<open>(RuneError, 1)\<close>: a byte that begins no well-formed
  UTF-8 sequence. The other escapes it writes are read back as the bytes they stand
  for.

  \<open>DecodeRuneInString s\<close> is the size of the well-formed sequence at the front of
  \<open>s\<close>, and \<open>None\<close> where the decoder returns \<open>(RuneError, 1)\<close>. The first byte
  gives the size of the sequence and the range of its second byte (the tables
  \<open>first\<close> and \<open>acceptRanges\<close> of package \<open>utf8\<close>); the later bytes are
  continuation bytes, \<open>0x80\<close> to \<open>0xBF\<close>.
\<close>

definition inRange :: "nat \<Rightarrow> nat \<Rightarrow> char \<Rightarrow> bool" where
  "inRange lo hi c = (lo \<le> of_char c \<and> of_char c \<le> hi)"

fun accept :: "nat \<Rightarrow> nat \<Rightarrow> nat \<Rightarrow> string \<Rightarrow> nat option" where
  "accept sz lo hi [] = None"
| "accept sz lo hi (c1 # rest) =
     (if inRange lo hi c1 \<and> sz - 2 \<le> length rest \<and> list_all (inRange 0x80 0xBF) (take (sz - 2) rest)
      then Some sz else None)"

fun DecodeRuneInString :: "string \<Rightarrow> nat option" where
  "DecodeRuneInString [] = None"
| "DecodeRuneInString (c # cs) =
     (let b = (of_char c :: nat)
      in if b < 0x80 then Some 1
         else if b < 0xC2 then None
         else if b < 0xE0 then accept 2 0x80 0xBF cs
         else if b = 0xE0 then accept 3 0xA0 0xBF cs
         else if b = 0xED then accept 3 0x80 0x9F cs
         else if b < 0xF0 then accept 3 0x80 0xBF cs
         else if b = 0xF0 then accept 4 0x90 0xBF cs
         else if b < 0xF4 then accept 4 0x80 0xBF cs
         else if b = 0xF4 then accept 4 0x80 0x8F cs
         else None)"

text \<open>
  \<open>sjson_Set s\<close> is the value of a string field after \<open>sjson.Set\<close> has written the Go
  string \<open>s\<close> into it: \<open>s\<close> with the three bytes of U+FFFD in the place of every byte
  that begins no well-formed sequence.
\<close>

fun sjson_Set :: "string \<Rightarrow> string" where
  "sjson_Set [] = []"
| "sjson_Set (c # cs) =
     (case DecodeRuneInString (c # cs) of
        None \<Rightarrow> [CHR 0xEF, CHR 0xBF, CHR 0xBD] @ sjson_Set cs
      | Some sz \<Rightarrow> c # take (sz - 1) cs @ sjson_Set (drop (sz - 1) cs))"

subsection \<open>Emitting events\<close>

text \<open>
  Every function below takes the state \<open>p\<close> and the list \<open>results\<close> it appends to
  (both are pointers in the source) and returns the two after the call.
\<close>

definition isPartialTag :: "string \<Rightarrow> bool" where
  "isPartialTag s =
     list_ex (\<lambda>tag. list_ex (\<lambda>i. HasSuffix s (take i tag)) [1..<length tag])
       [''<thinking>'', ''</thinking>'', ''<tool_call>'', ''</tool_call>'']"

definition emitTextDelta :: "PaCoReConvertParams \<Rightarrow> event list \<Rightarrow> string \<Rightarrow> PaCoReConvertParams \<times> event list" where
  "emitTextDelta p results text =
     (if text = [] then (p, results)
      else
        let (p1, results1) =
              (if \<not> TextContentBlockStarted p
               then
                 let p0 = (if TextContentBlockIndex p = - 1
                           then p\<lparr>TextContentBlockIndex := NextContentBlockIndex p,
                                  NextContentBlockIndex := NextContentBlockIndex p + 1\<rparr>
                           else p)
                 in (p0\<lparr>TextContentBlockStarted := True\<rparr>,
                     results @ [ContentBlockStart (TextContentBlockIndex p0) TextBlock])
               else (p, results))
        in (p1, results1 @ [ContentBlockDelta (TextContentBlockIndex p1) (TextDelta (sjson_Set text))]))"

definition stopTextBlock :: "PaCoReConvertParams \<Rightarrow> event list \<Rightarrow> PaCoReConvertParams \<times> event list" where
  "stopTextBlock p results =
     (if \<not> TextContentBlockStarted p then (p, results)
      else (p\<lparr>TextContentBlockStarted := False, TextContentBlockIndex := - 1\<rparr>,
            results @ [ContentBlockStop (TextContentBlockIndex p)]))"

definition stopThinkingBlock :: "PaCoReConvertParams \<Rightarrow> event list \<Rightarrow> PaCoReConvertParams \<times> event list" where
  "stopThinkingBlock p results =
     (if \<not> ThinkingContentBlockStarted p then (p, results)
      else (p\<lparr>ThinkingContentBlockStarted := False, ThinkingContentBlockIndex := - 1\<rparr>,
            results @ [ContentBlockStop (ThinkingContentBlockIndex p)]))"

definition startThinkingBlock :: "PaCoReConvertParams \<Rightarrow> event list \<Rightarrow> PaCoReConvertParams \<times> event list" where
  "startThinkingBlock p results =
     (let (p1, results1) = (if TextContentBlockStarted p then stopTextBlock p results else (p, results));
          p2 = (if ThinkingContentBlockIndex p1 = - 1
                then p1\<lparr>ThinkingContentBlockIndex := NextContentBlockIndex p1,
                        NextContentBlockIndex := NextContentBlockIndex p1 + 1\<rparr>
                else p1)
      in (p2\<lparr>ThinkingContentBlockStarted := True\<rparr>,
          results1 @ [ContentBlockStart (ThinkingContentBlockIndex p2) ThinkingBlock]))"

definition emitThinkingDelta :: "PaCoReConvertParams \<Rightarrow> event list \<Rightarrow> string \<Rightarrow> PaCoReConvertParams \<times> event list" where
  "emitThinkingDelta p results text =
     (if text = [] then (p, results)
      else
        let (p1, results1) =
              (if \<not> ThinkingContentBlockStarted p then startThinkingBlock p results else (p, results))
        in (p1, results1 @ [ContentBlockDelta (ThinkingContentBlockIndex p1) (ThinkingDelta (sjson_Set text))]))"

definition emitToolCall :: "Library \<Rightarrow> PaCoReConvertParams \<Rightarrow> event list \<Rightarrow> ToolCallXML \<Rightarrow> PaCoReConvertParams \<times> event list" where
  "emitToolCall lib p results toolCall =
     (let (p1, results1) = (if TextContentBlockStarted p then stopTextBlock p results else (p, results));
          (p2, results2) = (if ThinkingContentBlockStarted p1 then stopThinkingBlock p1 results1 else (p1, results1));
          blockIndex = NextContentBlockIndex p2;
          p3 = p2\<lparr>NextContentBlockIndex := NextContentBlockIndex p2 + 1\<rparr>;
          ident = ''call_'' @ uuid_New lib (UUIDsDrawn p3);
          p4 = p3\<lparr>UUIDsDrawn := UUIDsDrawn p3 + 1\<rparr>;
          argsJSON = json_Marshal lib (tool_Parameters toolCall)
      in (p4,
          results2 @ [ContentBlockStart blockIndex (ToolUseBlock ident (tool_Name toolCall)),
                      ContentBlockDelta blockIndex (InputJSONDelta argsJSON),
                      ContentBlockStop blockIndex]))"

text \<open>\<open>handleFinish\<close> starts from an empty list of results of its own.\<close>

definition handleFinish :: "PaCoReConvertParams \<Rightarrow> string \<Rightarrow> PaCoReConvertParams \<times> event list" where
  "handleFinish p reason =
     (let (p1, results1) = (if ThinkingContentBlockStarted p then stopThinkingBlock p [] else (p, []));
          (p2, results2) = (if TextContentBlockStarted p1 then stopTextBlock p1 results1 else (p1, results1));
          stopReason = (if reason = ''tool_calls'' then ''tool_use'' else ''end_turn'')
      in (p2, results2 @ [MessageDelta stopReason] @ [MessageStop]))"

subsection \<open>processBuffer\<close>

text \<open>
  One pass through the body of the \<open>for\<close> loop of \<open>processBuffer\<close>: \<open>Return\<close>
  where the body returns from the function, \<open>Continue\<close> where it reaches the end of
  the \<open>switch\<close> and the loop tests its condition again.
\<close>

datatype 'a loop = Continue 'a | Return 'a

text \<open>
  The first start tag in the buffer and its kind, as the \<open>if\<close> chain of the
  \<open>StateNormal\<close> case computes them (\<open>None\<close> for \<open>firstTagIdx = -1\<close>).
\<close>

definition firstTag :: "string \<Rightarrow> (nat \<times> string) option" where
  "firstTag content =
     (let thinkIdx = Index content tagThinkingStart;
          toolIdx = Index content tagToolCallStart
      in case (thinkIdx, toolIdx) of
           (Some t, None) \<Rightarrow> Some (t, ''thinking'')
         | (Some t, Some u) \<Rightarrow> if t < u then Some (t, ''thinking'') else Some (u, ''tool'')
         | (None, Some u) \<Rightarrow> Some (u, ''tool'')
         | (None, None) \<Rightarrow> None)"

definition processBuffer_body :: "Library \<Rightarrow> PaCoReConvertParams \<Rightarrow> event list \<Rightarrow> (PaCoReConvertParams \<times> event list) loop" where
  "processBuffer_body lib p results =
     (let content = Buffer p
      in case State p of
           StateNormal \<Rightarrow>
             (case firstTag content of
                Some (firstTagIdx, tagType) \<Rightarrow>
                  let (p1, results1) =
                        (if firstTagIdx > 0 then emitTextDelta p results (take firstTagIdx content)
                         else (p, results))
                  in if tagType = ''thinking''
                     then
                       Continue (startThinkingBlock
                                   (p1\<lparr>State := StateInThinking,
                                       Buffer := drop (firstTagIdx + length tagThinkingStart) content\<rparr>)
                                   results1)
                     else
                       Continue (p1\<lparr>State := StateInToolCall,
                                    Buffer := drop (firstTagIdx + length tagToolCallStart) content\<rparr>,
                                 results1)
              | None \<Rightarrow>
                  if isPartialTag content
                  then
                    (if length content > 15
                     then
                       let (p1, results1) = emitTextDelta p results (take (length content - 15) content)
                       in Return (p1\<lparr>Buffer := drop (length content - 15) content\<rparr>, results1)
                     else Return (p, results))
                  else
                    let (p1, results1) = emitTextDelta p results content
                    in Return (p1\<lparr>Buffer := []\<rparr>, results1))
         | StateInThinking \<Rightarrow>
             (case Index content tagThinkingEnd of
                Some endIdx \<Rightarrow>
                  let (p1, results1) = emitThinkingDelta p results (take endIdx content);
                      (p2, results2) = stopThinkingBlock p1 results1
                  in Continue (p2\<lparr>State := StateNormal,
                                   Buffer := drop (endIdx + length tagThinkingEnd) content\<rparr>,
                               results2)
              | None \<Rightarrow>
                  if isPartialTag content
                  then
                    (if length content > 15
                     then
                       let (p1, results1) = emitThinkingDelta p results (take (length content - 15) content)
                       in Return (p1\<lparr>Buffer := drop (length content - 15) content\<rparr>, results1)
                     else Return (p, results))
                  else
                    let (p1, results1) = emitThinkingDelta p results content
                    in Return (p1\<lparr>Buffer := []\<rparr>, results1))
         | StateInToolCall \<Rightarrow>
             (case Index content tagToolCallEnd of
                Some endIdx \<Rightarrow>
                  let xmlStr = take endIdx content;
                      fullXML = tagToolCallStart @ xmlStr @ tagToolCallEnd;
                      (p1, results1) =
                        (case xml_Unmarshal lib fullXML of
                           Some toolCall \<Rightarrow> emitToolCall lib p results toolCall
                         | None \<Rightarrow> (p, results))
                  in Continue (p1\<lparr>State := StateNormal,
                                   Buffer := drop (endIdx + length tagToolCallEnd) content\<rparr>,
                               results1)
              | None \<Rightarrow> Return (p, results)))"

lemma Buffer_emitTextDelta [simp]: "Buffer (fst (emitTextDelta p results text)) = Buffer p"
  by (simp add: emitTextDelta_def Let_def)

lemma Buffer_stopTextBlock [simp]: "Buffer (fst (stopTextBlock p results)) = Buffer p"
  by (simp add: stopTextBlock_def)

lemma Buffer_stopThinkingBlock [simp]: "Buffer (fst (stopThinkingBlock p results)) = Buffer p"
  by (simp add: stopThinkingBlock_def)

lemma Buffer_startThinkingBlock [simp]: "Buffer (fst (startThinkingBlock p results)) = Buffer p"
  by (simp add: startThinkingBlock_def Let_def split_beta)

lemma Buffer_emitThinkingDelta [simp]: "Buffer (fst (emitThinkingDelta p results text)) = Buffer p"
  by (simp add: emitThinkingDelta_def Let_def split_beta)

lemma Buffer_emitToolCall [simp]: "Buffer (fst (emitToolCall lib p results toolCall)) = Buffer p"
  by (simp add: emitToolCall_def Let_def split_beta)

lemma firstTag_bound:
  assumes "firstTag content = Some (i, tagType)"
  shows "i + 10 \<le> length content"
proof -
  from assms consider "Index content tagThinkingStart = Some i" | "Index content tagToolCallStart = Some i"
    by (auto simp: firstTag_def Let_def split: option.splits if_splits)
  then show ?thesis
  proof cases
    case 1
    from Index_bound[OF this] show ?thesis by (simp add: tagThinkingStart_def)
  next
    case 2
    from Index_bound[OF this] show ?thesis by (simp add: tagToolCallStart_def)
  qed
qed

lemma processBuffer_body_Continue:
  assumes "processBuffer_body lib p results = Continue x"
  shows "length (Buffer (fst x)) < length (Buffer p)"
proof (cases "State p")
  case StateNormal
  with assms obtain i tagType where ft: "firstTag (Buffer p) = Some (i, tagType)"
    and "length (Buffer (fst x)) = length (Buffer p) - (i + length tagThinkingStart)
         \<or> length (Buffer (fst x)) = length (Buffer p) - (i + length tagToolCallStart)"
    by (auto simp: processBuffer_body_def Let_def split_beta split: option.splits if_splits)
  with firstTag_bound[OF ft] show ?thesis
    by (auto simp: tagThinkingStart_def tagToolCallStart_def)
next
  case StateInThinking
  with assms obtain i where ix: "Index (Buffer p) tagThinkingEnd = Some i"
    and "length (Buffer (fst x)) = length (Buffer p) - (i + length tagThinkingEnd)"
    by (auto simp: processBuffer_body_def Let_def split_beta split: option.splits if_splits)
  with Index_bound[OF ix] show ?thesis by (auto simp: tagThinkingEnd_def)
next
  case StateInToolCall
  with assms obtain i where ix: "Index (Buffer p) tagToolCallEnd = Some i"
    and "length (Buffer (fst x)) = length (Buffer p) - (i + length tagToolCallEnd)"
    by (auto simp: processBuffer_body_def Let_def split_beta split: option.splits if_splits)
  with Index_bound[OF ix] show ?thesis by (auto simp: tagToolCallEnd_def)
qed

text \<open>
  The loop: it runs while the buffer is not empty. Every pass that continues has
  consumed a tag, so the buffer has become shorter.
\<close>

function processBuffer :: "Library \<Rightarrow> PaCoReConvertParams \<Rightarrow> event list \<Rightarrow> PaCoReConvertParams \<times> event list" where
  "processBuffer lib p results =
     (if length (Buffer p) > 0
      then (case processBuffer_body lib p results of
              Return r \<Rightarrow> r
            | Continue (p', results') \<Rightarrow> processBuffer lib p' results')
      else (p, results))"
  by pat_completeness auto
termination
proof (relation "measure (\<lambda>(lib, p, results). length (Buffer p))")
  show "wf (measure (\<lambda>(lib, p, results). length (Buffer p)))" by simp
next
  fix lib p results x1 p' results'
  assume "processBuffer_body lib p results = Continue x1" "(p', results') = x1"
  then have "processBuffer_body lib p results = Continue (p', results')" by simp
  from processBuffer_body_Continue[OF this]
  show "((lib, p', results'), lib, p, results) \<in> measure (\<lambda>(lib, p, results). length (Buffer p))"
    by simp
qed

declare processBuffer.simps [simp del]

subsection \<open>PaCoReToClaudeResponse\<close>

text \<open>The state a nil \<open>*param\<close> is replaced by.\<close>

definition newParams :: PaCoReConvertParams where
  "newParams =
     \<lparr>State = StateNormal, Buffer = [], MessageStarted = False, MessageID = [], Model = [],
      NextContentBlockIndex = 0, TextContentBlockIndex = - 1, ThinkingContentBlockIndex = - 1,
      ToolCallBlockIndexes = [], ThinkingAccumulator = [], ToolCallAccumulator = [],
      TextContentBlockStarted = False, ThinkingContentBlockStarted = False, UUIDsDrawn = 0\<rparr>"

text \<open>
  \<open>param\<close> is \<open>None\<close> for a nil \<open>*param\<close>. The result is the list of events returned
  and the state \<open>*param\<close> points to after the call.
\<close>

definition PaCoReToClaudeResponse :: "Library \<Rightarrow> string \<Rightarrow> chunk \<Rightarrow> PaCoReConvertParams option \<Rightarrow> event list \<times> PaCoReConvertParams option" where
  "PaCoReToClaudeResponse lib model rawJSON param =
     (let p0 = (case param of None \<Rightarrow> newParams | Some p \<Rightarrow> p);
          (p, results) =
            (if \<not> MessageStarted p0
             then
               let ident = ''msg_'' @ uuid_New lib (UUIDsDrawn p0)
               in (p0\<lparr>MessageID := ident, Model := model, MessageStarted := True,
                       UUIDsDrawn := UUIDsDrawn p0 + 1\<rparr>,
                   [MessageStart ident model])
             else (p0, []));
          chunkContent = (if gjson_ValidBytes rawJSON then gjson_content rawJSON else bytes_of rawJSON)
      in if chunkContent = []
         then
           (let finishReason = gjson_finish_reason rawJSON
            in if finishReason \<noteq> []
               then (let (p', results') = handleFinish p finishReason in (results', Some p'))
               else (results, Some p))
         else
           (let (p', results') = processBuffer lib (p\<lparr>Buffer := Buffer p @ chunkContent\<rparr>) results
            in (results', Some p')))"

text \<open>
  A stream: the transcoder is called once per chunk with the same \<open>param\<close>, and the
  events of the calls are concatenated, as the streaming caller and the tests do.
\<close>

fun transcode :: "Library \<Rightarrow> string \<Rightarrow> chunk list \<Rightarrow> PaCoReConvertParams option \<Rightarrow> event list \<times> PaCoReConvertParams option" where
  "transcode lib model [] param = ([], param)"
| "transcode lib model (rawJSON # chunks) param =
     (let (events, param') = PaCoReToClaudeResponse lib model rawJSON param;
          (allEvents, param'') = transcode lib model chunks param'
      in (events @ allEvents, param''))"


section \<open>Vocabulary of the transcoder properties\<close>

text \<open>
  The text a call takes from its chunk, and the chunks for which the call runs the
  finish handler: no content and a finish reason.
\<close>

definition chunkContent :: "chunk \<Rightarrow> string" where
  "chunkContent rawJSON = (if gjson_ValidBytes rawJSON then gjson_content rawJSON else bytes_of rawJSON)"

definition finishes :: "chunk \<Rightarrow> bool" where
  "finishes rawJSON = (chunkContent rawJSON = [] \<and> gjson_finish_reason rawJSON \<noteq> [])"

text \<open>
  The events of content blocks, as opposed to those of the message.
\<close>

fun block_event :: "event \<Rightarrow> bool" where
  "block_event (ContentBlockStart i b) = True"
| "block_event (ContentBlockDelta i d) = True"
| "block_event (ContentBlockStop i) = True"
| "block_event e = False"

text \<open>
  The starts (\<open>True\<close>) and stops (\<open>False\<close>) of the block of index \<open>i\<close> in a sequence
  of events, in their order.
\<close>

fun marks :: "int \<Rightarrow> event list \<Rightarrow> bool list" where
  "marks i [] = []"
| "marks i (ContentBlockStart j b # es) = (if j = i then True # marks i es else marks i es)"
| "marks i (ContentBlockStop j # es) = (if j = i then False # marks i es else marks i es)"
| "marks i (e # es) = marks i es"

text \<open>
  The invariant of the block bookkeeping. A block is open when the state says its
  text or thinking block has started; the indexes in use are below the counter; a
  thinking block is open only in the state \<open>StateInThinking\<close>; and in the events so
  far, an index that is not in use has no mark, an open block has one start, and
  every other block has one start followed by one stop.
\<close>

definition is_open :: "PaCoReConvertParams \<Rightarrow> int \<Rightarrow> bool" where
  "is_open p i = (TextContentBlockStarted p \<and> TextContentBlockIndex p = i
                  \<or> ThinkingContentBlockStarted p \<and> ThinkingContentBlockIndex p = i)"

definition indexes_ok :: "PaCoReConvertParams \<Rightarrow> bool" where
  "indexes_ok p =
     (0 \<le> NextContentBlockIndex p
      \<and> (if TextContentBlockStarted p
         then 0 \<le> TextContentBlockIndex p \<and> TextContentBlockIndex p < NextContentBlockIndex p
         else TextContentBlockIndex p = - 1)
      \<and> (if ThinkingContentBlockStarted p
         then 0 \<le> ThinkingContentBlockIndex p \<and> ThinkingContentBlockIndex p < NextContentBlockIndex p
              \<and> State p = StateInThinking
         else ThinkingContentBlockIndex p = - 1)
      \<and> \<not> (TextContentBlockStarted p \<and> ThinkingContentBlockStarted p
           \<and> TextContentBlockIndex p = ThinkingContentBlockIndex p))"

definition expected_marks :: "PaCoReConvertParams \<Rightarrow> int \<Rightarrow> bool list" where
  "expected_marks p i =
     (if i < 0 \<or> NextContentBlockIndex p \<le> i then []
      else if is_open p i then [True] else [True, False])"

definition blocks_ok :: "PaCoReConvertParams \<Rightarrow> event list \<Rightarrow> bool" where
  "blocks_ok p es = (indexes_ok p \<and> (\<forall>i. marks i es = expected_marks p i))"

text \<open>
  \<open>extends p rs x\<close>: the pair \<open>x\<close> of a state and a list of results comes from
  \<open>p\<close> and \<open>rs\<close> by appending block events, leaves the started flag alone and
  keeps the invariant.
\<close>

definition extends :: "PaCoReConvertParams \<Rightarrow> event list \<Rightarrow> PaCoReConvertParams \<times> event list \<Rightarrow> bool" where
  "extends p rs x =
     (\<exists>new. snd x = rs @ new \<and> (\<forall>e \<in> set new. block_event e)
         \<and> MessageStarted (fst x) = MessageStarted p
         \<and> (\<forall>es. blocks_ok p es \<longrightarrow> blocks_ok (fst x) (es @ new)))"

text \<open>The part of \<open>startThinkingBlock\<close> after the text block has been stopped.\<close>

definition openThinking :: "PaCoReConvertParams \<Rightarrow> event list \<Rightarrow> PaCoReConvertParams \<times> event list" where
  "openThinking p rs =
     (let p2 = (if ThinkingContentBlockIndex p = - 1
                then p\<lparr>ThinkingContentBlockIndex := NextContentBlockIndex p,
                        NextContentBlockIndex := NextContentBlockIndex p + 1\<rparr>
                else p)
      in (p2\<lparr>ThinkingContentBlockStarted := True\<rparr>,
          rs @ [ContentBlockStart (ThinkingContentBlockIndex p2) ThinkingBlock]))"

text \<open>
  The state a call works on: the one \<open>*param\<close> points to, or a new one.
\<close>

definition param_or_new :: "PaCoReConvertParams option \<Rightarrow> PaCoReConvertParams" where
  "param_or_new param = (case param of None \<Rightarrow> newParams | Some p \<Rightarrow> p)"

text \<open>The state after the prologue of a call, and the events the prologue puts into \<open>results\<close>.\<close>

definition started :: "Library \<Rightarrow> string \<Rightarrow> PaCoReConvertParams \<Rightarrow> PaCoReConvertParams" where
  "started lib model p =
     (if MessageStarted p then p
      else p\<lparr>MessageID := ''msg_'' @ uuid_New lib (UUIDsDrawn p), Model := model,
             MessageStarted := True, UUIDsDrawn := UUIDsDrawn p + 1\<rparr>)"

definition prologue :: "Library \<Rightarrow> string \<Rightarrow> PaCoReConvertParams \<Rightarrow> event list" where
  "prologue lib model p =
     (if MessageStarted p then [] else [MessageStart (''msg_'' @ uuid_New lib (UUIDsDrawn p)) model])"

subsection \<open>Vocabulary of the chunking property\<close>

text \<open>
  The four tags \<open>isPartialTag\<close> knows, and the tags \<open>processBuffer\<close> searches for in
  each state.
\<close>

definition tags :: "string list" where
  "tags = [''<thinking>'', ''</thinking>'', ''<tool_call>'', ''</tool_call>'']"

fun searched :: "State \<Rightarrow> string list" where
  "searched StateNormal = [tagThinkingStart, tagToolCallStart]"
| "searched StateInThinking = [tagThinkingEnd]"
| "searched StateInToolCall = [tagToolCallEnd]"

text \<open>
  \<open>safe st x b\<close>: in the buffer \<open>x @ b\<close>, whatever is appended to it later, no
  searched tag begins inside \<open>x\<close>: no suffix of the buffer that begins inside \<open>x\<close>
  has a searched tag as a prefix or is a proper prefix of a tag.
\<close>

definition safe :: "State \<Rightarrow> string \<Rightarrow> string \<Rightarrow> bool" where
  "safe st x b =
     (\<forall>i < length x. (\<forall>t \<in> set (searched st). \<not> prefix t (drop i (x @ b)))
                     \<and> (\<forall>t \<in> set tags. \<not> strict_prefix (drop i (x @ b)) t))"

text \<open>
  A text or thinking delta split into one delta per byte: two sequences of events
  have the same \<open>split_deltas\<close> when they differ only in how the text of a block
  is divided among consecutive deltas.
\<close>

fun explode :: "event \<Rightarrow> event list" where
  "explode (ContentBlockDelta i (TextDelta text)) = map (\<lambda>c. ContentBlockDelta i (TextDelta [c])) text"
| "explode (ContentBlockDelta i (ThinkingDelta text)) = map (\<lambda>c. ContentBlockDelta i (ThinkingDelta [c])) text"
| "explode e = [e]"

definition split_deltas :: "event list \<Rightarrow> event list" where
  "split_deltas es = concat (map explode es)"

text \<open>
  A text of ASCII bytes only. Every byte of it is a well-formed sequence of its own,
  so the string \<open>sjson.Set\<close> makes of a piece of it is the piece, wherever the text
  has been cut.
\<close>

definition ascii :: "string \<Rightarrow> bool" where
  "ascii s = list_all (\<lambda>c. of_char c < (128::nat)) s"

text \<open>
  Emitting a piece of the buffer in the way of the current state.
\<close>

definition emit :: "PaCoReConvertParams \<Rightarrow> event list \<Rightarrow> string \<Rightarrow> PaCoReConvertParams \<times> event list" where
  "emit p rs x = (if State p = StateInThinking then emitThinkingDelta p rs x else emitTextDelta p rs x)"

text \<open>
  The searched tag that comes first in the buffer, in the states that emit text:
  its offset and its kind (\<open>thinking\<close> and \<open>tool\<close> for the two start tags, \<open>end\<close>
  for the end of a thinking region).
\<close>

definition tagAt :: "State \<Rightarrow> string \<Rightarrow> (nat \<times> string) option" where
  "tagAt st c =
     (if st = StateInThinking then map_option (\<lambda>i. (i, ''end'')) (Index c tagThinkingEnd)
      else firstTag c)"

definition tagLen :: "string \<Rightarrow> nat" where
  "tagLen ty = (if ty = ''thinking'' then length tagThinkingStart
                else if ty = ''tool'' then length tagToolCallStart
                else length tagThinkingEnd)"

text \<open>What the loop body does once the text before the tag has been emitted.\<close>

definition enter :: "string \<Rightarrow> PaCoReConvertParams \<Rightarrow> event list \<Rightarrow> string \<Rightarrow> PaCoReConvertParams \<times> event list" where
  "enter ty p1 r1 rest =
     (if ty = ''thinking''
      then startThinkingBlock (p1\<lparr>State := StateInThinking, Buffer := rest\<rparr>) r1
      else if ty = ''tool''
      then (p1\<lparr>State := StateInToolCall, Buffer := rest\<rparr>, r1)
      else ((fst (stopThinkingBlock p1 r1))\<lparr>State := StateNormal, Buffer := rest\<rparr>,
            snd (stopThinkingBlock p1 r1)))"

text \<open>The number of bytes the loop body flushes when the buffer holds no searched tag.\<close>

definition flushLen :: "string \<Rightarrow> nat" where
  "flushLen c = (if isPartialTag c then length c - 15 else length c)"

text \<open>
  Emitting the first \<open>n\<close> bytes of the buffer and keeping the rest.
\<close>

definition flush :: "PaCoReConvertParams \<Rightarrow> event list \<Rightarrow> nat \<Rightarrow> PaCoReConvertParams \<times> event list" where
  "flush p rs n =
     ((fst (emit p rs (take n (Buffer p))))\<lparr>Buffer := drop n (Buffer p)\<rparr>,
      snd (emit p rs (take n (Buffer p))))"

text \<open>The loop body in the state \<open>StateInToolCall\<close>.\<close>

definition closeToolCall :: "Library \<Rightarrow> PaCoReConvertParams \<Rightarrow> event list \<Rightarrow> nat \<Rightarrow> PaCoReConvertParams \<times> event list" where
  "closeToolCall lib p rs endIdx =
     (let d = (case xml_Unmarshal lib (tagToolCallStart @ take endIdx (Buffer p) @ tagToolCallEnd) of
                 Some toolCall \<Rightarrow> emitToolCall lib p rs toolCall
               | None \<Rightarrow> (p, rs))
      in ((fst d)\<lparr>State := StateNormal, Buffer := drop (endIdx + length tagToolCallEnd) (Buffer p)\<rparr>, snd d))"

text \<open>
  Two pairs of a state and a list of events are similar when the states are equal and
  the events are equal up to the division of text among deltas. \<open>ahead c d\<close>: \<open>d\<close> is
  \<open>c\<close> after a safe part of its buffer has been flushed.
\<close>

definition similar :: "PaCoReConvertParams \<times> event list \<Rightarrow> PaCoReConvertParams \<times> event list \<Rightarrow> bool" where
  "similar c d = (fst c = fst d \<and> split_deltas (snd c) = split_deltas (snd d))"

definition ahead :: "PaCoReConvertParams \<times> event list \<Rightarrow> PaCoReConvertParams \<times> event list \<Rightarrow> bool" where
  "ahead c d =
     (\<exists>n \<le> length (Buffer (fst c)).
        safe (State (fst c)) (take n (Buffer (fst c))) (drop n (Buffer (fst c)))
        \<and> (State (fst c) = StateInToolCall \<longrightarrow> n = 0)
        \<and> similar (flush (fst c) (snd c) n) d)"

text \<open>
  Appending a text to the buffer and running \<open>processBuffer\<close>.
\<close>

definition feed :: "Library \<Rightarrow> PaCoReConvertParams \<times> event list \<Rightarrow> string \<Rightarrow> PaCoReConvertParams \<times> event list" where
  "feed lib c s = processBuffer lib ((fst c)\<lparr>Buffer := Buffer (fst c) @ s\<rparr>) (snd c)"

text \<open>
  The state and the results after the prologue of the first call of a stream.
\<close>

definition afterPrologue :: "Library \<Rightarrow> string \<Rightarrow> PaCoReConvertParams \<times> event list" where
  "afterPrologue lib model = (started lib model newParams, prologue lib model newParams)"

section \<open>Example inputs\<close>

definition example_detail :: "Time \<Rightarrow> RequestDetail" where
  "example_detail t = \<lparr>Timestamp = t, Source = ''source'', AuthIndex = ''0'',
                        Tokens = \<lparr>tokens_TotalTokens = 100\<rparr>, Failed = False\<rparr>"

definition example_snapshot :: "Time list \<Rightarrow> StatisticsSnapshot" where
  "example_snapshot ts =
     \<lparr>TotalRequests = 5, SuccessCount = 5, FailureCount = 0, TotalTokens = 500,
      APIs = [(''test-api'',
               \<lparr>api_TotalRequests = 5, api_TotalTokens = 500,
                Models = [(''test-model'',
                           \<lparr>model_TotalRequests = 5, model_TotalTokens = 500,
                            Details = map example_detail ts\<rparr>)]\<rparr>)]\<rparr>"


text \<open>A toy JSON decoder that knows two export payloads, and a store that is its own snapshot.\<close>

definition example_payload :: "string \<Rightarrow> ImportPayload option" where
  \<open>example_payload data =
     (if data = ''{"version":1}'' then Some \<lparr>import_Version = 1, import_Usage = example_snapshot [1]\<rparr>
      else if data = ''{"version":2}'' then Some \<lparr>import_Version = 2, import_Usage = example_snapshot [2]\<rparr>
      else None)\<close>

definition example_env :: "StatisticsSnapshot Env" where
  "example_env =
     \<lparr>Replace = (\<lambda>st snapshot. snapshot),
      MergeSnapshot = (\<lambda>st snapshot. (\<lparr>Added = 1, Skipped = 0\<rparr>, snapshot)),
      Snapshot = (\<lambda>st. st),
      json_Unmarshal = example_payload,
      json_MarshalIndent = (\<lambda>payload. None),
      filepath_Dir = (\<lambda>path. ''.''),
      now_strip = 0,
      now_export = 0\<rparr>"

definition example_fs :: "string \<Rightarrow> FileSystem" where
  "example_fs data = \<lparr>files = [''usage_stats.json'' \<mapsto> data], refused = (\<lambda>op. False), trace = []\<rparr>"


text \<open>
  A library for the examples: the identifiers \<open>u\<close>, \<open>uu\<close>, \<open>uuu\<close> and so on, and an
  XML decoder that knows one tool call, which has a name and no parameters.
  \<open>encoding/xml\<close> cannot decode into the map \<open>Parameters\<close> and returns an error for
  a tool call with a \<open>parameter\<close> element, so the map of a decoded tool call is nil,
  which \<open>json.Marshal\<close> writes as \<open>null\<close>.
\<close>

definition example_lib :: Library where
  "example_lib =
     \<lparr>uuid_New = (\<lambda>n. replicate (Suc n) CHR ''u''),
      xml_Unmarshal = (\<lambda>s. if s = ''<tool_call><name>weather</name></tool_call>''
                          then Some \<lparr>tool_Name = ''weather'', tool_Parameters = []\<rparr> else None),
      json_Marshal = (\<lambda>ps. ''null'')\<rparr>"
section \<open>Properties of the tool-intent parser\<close>

lemma Index_absent: "sep \<noteq> [] \<Longrightarrow> hd sep \<notin> set s \<Longrightarrow> Index s sep = None"
  by (induction s) (auto simp: prefix_Cons)

lemma findTagBlock_unclosed:
  "CHR ''<'' \<notin> set pad \<Longrightarrow> findTagBlock (''hello <websearch>'' @ pad) ''websearch'' = None"
  by (simp add: findTagBlock_def Index_absent)

lemma splitFlushable_unclosed:
  "CHR ''<'' \<notin> set pad \<Longrightarrow>
   splitFlushable (''hello <websearch>'' @ pad) = (''hello '', ''<websearch>'' @ pad)"
  by (simp add: splitFlushable_def Index_absent)

text \<open>
  C6 (flushable text is the input with the complete blocks removed, also when the
  buffer exceeds the cap). On a fresh buffer, one \<open>Feed\<close> of the six bytes
  \<open>hello \<close>, an opening \<open><websearch>\<close> and 8200 bytes \<open>x\<close> holds no complete
  block, so nothing is to be removed. \<open>splitFlushable\<close> returns \<open>hello \<close> as
  flushable and the rest as the part to keep; the part to keep is longer than
  \<open>maxBuffer\<close>, and that branch of \<open>Feed\<close> returns the kept part alone. The buffer is
  empty afterwards and the six bytes \<open>hello \<close> are in no output.
\<close>

theorem Feed_overflow_loses_flushable:
  "Feed NewToolIntentBuffer (''hello <websearch>'' @ replicate 8200 CHR ''x'')
     = ((''<websearch>'' @ replicate 8200 CHR ''x'', []), NewToolIntentBuffer)"
proof -
  have "CHR ''<'' \<notin> set (replicate 8200 CHR ''x'')" by simp
  from findTagBlock_unclosed[OF this] splitFlushable_unclosed[OF this] show ?thesis
    by (simp add: Feed_def NewToolIntentBuffer_def ParseToolIntents_def)
qed

text \<open>
  C7 (an intent whose trimmed question is empty is dropped). \<open>ParseToolIntents\<close>
  tests the inner text of \<open><question>\<close> for emptiness before it trims it: a question
  of one space passes the test, and the intent is returned with the empty string as
  its \<open>question\<close> argument.
\<close>

theorem ParseToolIntents_blank_question_kept:
  "map (\<lambda>intent. (Name intent, Arguments intent ''question''))
       (snd (ParseToolIntents ''<websearch><question> </question></websearch>''))
     = [(''websearch'', Some [])]"
  by code_simp

section \<open>Properties of the retention filter\<close>











section \<open>Properties of the persistence driver and of the import handler\<close>

text \<open>
  C9: once the payload has been read and decoded, \<open>LoadFromFile\<close> and the import
  handler accept version 0 or 1 (the store is replaced, respectively merged); for any
  other version they fail with the unsupported-version error and the store is the one
  they were given, whatever \<open>Replace\<close> and \<open>MergeSnapshot\<close> do.
\<close>

theorem import_version_validation:
  assumes "os_ReadFile fsys path = (Inr data, fsys')"
    and "path \<noteq> []" and "data \<noteq> []"
    and "json_Unmarshal env data = Some payload"
  shows "LoadFromFile env fsys (Some st) path =
           (if import_Version payload = 0 \<or> import_Version payload = 1
            then (None, fsys', Some (Replace env st (import_Usage payload)))
            else (Some (UnsupportedVersion (import_Version payload)), fsys', Some st))
       \<and> ImportUsageStatistics env (Some (Some st)) (Some data) =
           (if import_Version payload = 0 \<or> import_Version payload = 1
            then (let (result, st') = MergeSnapshot env st (import_Usage payload)
                  in ((200, ImportBody (Added result) (Skipped result)
                              (TotalRequests (Snapshot env st')) (FailureCount (Snapshot env st'))),
                      Some (Some st')))
            else ((400, ErrorBody ''unsupported version''), Some (Some st)))"
  using assms by (auto simp: LoadFromFile_def ImportUsageStatistics_def Let_def split: prod.splits)

text \<open>
  C9 at concrete inputs: a payload of version 2 is rejected by both and the store is
  unchanged; a payload of version 1 is accepted by both.
\<close>

theorem import_version_validation_witness:
  \<open>LoadFromFile example_env (example_fs ''{"version":2}'') (Some (example_snapshot [])) ''usage_stats.json''
     = (Some (UnsupportedVersion 2),
        (example_fs ''{"version":2}'')\<lparr>trace := [OpReadFile ''usage_stats.json'']\<rparr>,
        Some (example_snapshot []))
   \<and> ImportUsageStatistics example_env (Some (Some (example_snapshot []))) (Some ''{"version":2}'')
     = ((400, ErrorBody ''unsupported version''), Some (Some (example_snapshot [])))
   \<and> LoadFromFile example_env (example_fs ''{"version":1}'') (Some (example_snapshot [])) ''usage_stats.json''
     = (None,
        (example_fs ''{"version":1}'')\<lparr>trace := [OpReadFile ''usage_stats.json'']\<rparr>,
        Some (example_snapshot [1]))
   \<and> ImportUsageStatistics example_env (Some (Some (example_snapshot []))) (Some ''{"version":1}'')
     = ((200, ImportBody 1 0 5 0), Some (Some (example_snapshot [1])))\<close>
proof -
  have r: "\<And>data. os_ReadFile (example_fs data) ''usage_stats.json''
             = (Inr data, (example_fs data)\<lparr>trace := [OpReadFile ''usage_stats.json'']\<rparr>)"
    by (simp add: os_ReadFile_def example_fs_def)
  have p2: \<open>json_Unmarshal example_env ''{"version":2}''
              = Some \<lparr>import_Version = 2, import_Usage = example_snapshot [2]\<rparr>\<close>
    by (simp add: example_env_def example_payload_def)
  have p1: \<open>json_Unmarshal example_env ''{"version":1}''
              = Some \<lparr>import_Version = 1, import_Usage = example_snapshot [1]\<rparr>\<close>
    by (simp add: example_env_def example_payload_def)
  from import_version_validation[OF r _ _ p2, of "example_snapshot []"]
       import_version_validation[OF r _ _ p1, of "example_snapshot []"]
  show ?thesis
    by (simp add: example_env_def example_snapshot_def)
qed

text \<open>
  C10: with a nil receiver or an empty path, \<open>LoadFromFile\<close> and \<open>SaveToFile\<close>
  return a nil error; the file system, the trace of its operations included, and the
  store are the ones they were given.
\<close>

theorem persistence_skipped_without_receiver_or_path:
  assumes "s = None \<or> path = []"
  shows "LoadFromFile env fsys s path = (None, fsys, s)
       \<and> SaveToFile env fsys s path retentionDays = (None, fsys, s)"
  using assms by (auto simp: LoadFromFile_def SaveToFile_def split: option.splits)

text \<open>C10 at concrete inputs: a nil receiver with a path, and a store with the empty path.\<close>

theorem persistence_skipped_witness:
  \<open>LoadFromFile example_env (example_fs ''{"version":1}'') None ''usage_stats.json''
     = (None, example_fs ''{"version":1}'', None)
   \<and> SaveToFile example_env (example_fs ''{"version":1}'') None ''usage_stats.json'' 30
     = (None, example_fs ''{"version":1}'', None)
   \<and> LoadFromFile example_env (example_fs ''{"version":1}'') (Some (example_snapshot [])) []
     = (None, example_fs ''{"version":1}'', Some (example_snapshot []))
   \<and> SaveToFile example_env (example_fs ''{"version":1}'') (Some (example_snapshot [])) [] 30
     = (None, example_fs ''{"version":1}'', Some (example_snapshot []))\<close>
  using persistence_skipped_without_receiver_or_path[of None "''usage_stats.json''" example_env \<open>example_fs ''{"version":1}''\<close> 30]
        persistence_skipped_without_receiver_or_path[of "Some (example_snapshot [])" "[]" example_env \<open>example_fs ''{"version":1}''\<close> 30]
  by simp

section \<open>Properties of the transcoder: blocks and message events\<close>

lemma marks_append [simp]: "marks i (xs @ ys) = marks i xs @ marks i ys"
  by (induction i xs rule: marks.induct) auto

lemma State_emitTextDelta [simp]: "State (fst (emitTextDelta p results text)) = State p"
  by (simp add: emitTextDelta_def Let_def)

lemma State_stopTextBlock [simp]: "State (fst (stopTextBlock p results)) = State p"
  by (simp add: stopTextBlock_def)

lemma State_stopThinkingBlock [simp]: "State (fst (stopThinkingBlock p results)) = State p"
  by (simp add: stopThinkingBlock_def)

lemma State_startThinkingBlock [simp]: "State (fst (startThinkingBlock p results)) = State p"
  by (simp add: startThinkingBlock_def Let_def split_beta)

lemma State_emitThinkingDelta [simp]: "State (fst (emitThinkingDelta p results text)) = State p"
  by (simp add: emitThinkingDelta_def Let_def split_beta)

lemma State_emitToolCall [simp]: "State (fst (emitToolCall lib p results toolCall)) = State p"
  by (simp add: emitToolCall_def Let_def split_beta)

lemma extends_refl [simp]: "extends p rs (p, rs)"
  by (auto simp: extends_def)

lemma extends_self [simp]: "extends (fst x) (snd x) x"
  by (cases x) simp

lemma extends_trans:
  assumes "extends p rs x" "extends (fst x) (snd x) y"
  shows "extends p rs y"
proof -
  from assms(1) obtain n1 where 1: "snd x = rs @ n1" "\<forall>e \<in> set n1. block_event e"
    "MessageStarted (fst x) = MessageStarted p" "\<forall>es. blocks_ok p es \<longrightarrow> blocks_ok (fst x) (es @ n1)"
    unfolding extends_def by blast
  from assms(2) obtain n2 where 2: "snd y = snd x @ n2" "\<forall>e \<in> set n2. block_event e"
    "MessageStarted (fst y) = MessageStarted (fst x)" "\<forall>es. blocks_ok (fst x) es \<longrightarrow> blocks_ok (fst y) (es @ n2)"
    unfolding extends_def by blast
  have "\<forall>es. blocks_ok p es \<longrightarrow> blocks_ok (fst y) (es @ (n1 @ n2))"
    using 1(4) 2(4) by (metis append.assoc)
  with 1 2 show ?thesis
    unfolding extends_def by (intro exI[of _ "n1 @ n2"]) auto
qed

lemma extendsI:
  assumes "snd x = rs @ new" "\<And>e. e \<in> set new \<Longrightarrow> block_event e"
    "MessageStarted (fst x) = MessageStarted p"
    "\<And>es. blocks_ok p es \<Longrightarrow> blocks_ok (fst x) (es @ new)"
  shows "extends p rs x"
  unfolding extends_def using assms by blast

lemma blocks_okI:
  assumes "indexes_ok p" "\<And>i. marks i es = expected_marks p i"
  shows "blocks_ok p es"
  using assms by (simp add: blocks_ok_def)

lemma blocks_ok_state:
  assumes "blocks_ok p es" "\<not> ThinkingContentBlockStarted p \<or> s = StateInThinking"
  shows "blocks_ok (p\<lparr>State := s, Buffer := b\<rparr>) es"
  using assms by (auto simp: blocks_ok_def indexes_ok_def expected_marks_def is_open_def split: if_splits)

lemma blocks_ok_Buffer [simp]: "blocks_ok (p\<lparr>Buffer := b\<rparr>) es = blocks_ok p es"
  by (simp add: blocks_ok_def indexes_ok_def expected_marks_def is_open_def)

lemma blocks_ok_delta:
  assumes "blocks_ok p es"
  shows "blocks_ok p (es @ [ContentBlockDelta i d])"
  using assms by (simp add: blocks_ok_def)

lemma blocks_ok_open_text:
  assumes "blocks_ok p es" "\<not> TextContentBlockStarted p"
  shows "blocks_ok (p\<lparr>TextContentBlockIndex := NextContentBlockIndex p,
                       NextContentBlockIndex := NextContentBlockIndex p + 1,
                       TextContentBlockStarted := True\<rparr>)
                   (es @ [ContentBlockStart (NextContentBlockIndex p) b])"
proof (rule blocks_okI)
  from assms show "indexes_ok (p\<lparr>TextContentBlockIndex := NextContentBlockIndex p,
                       NextContentBlockIndex := NextContentBlockIndex p + 1,
                       TextContentBlockStarted := True\<rparr>)"
    by (auto simp: blocks_ok_def indexes_ok_def split: if_splits)
next
  fix i
  from assms have m: "marks i es = expected_marks p i" and ok: "indexes_ok p"
    by (simp_all add: blocks_ok_def)
  show "marks i (es @ [ContentBlockStart (NextContentBlockIndex p) b]) =
        expected_marks (p\<lparr>TextContentBlockIndex := NextContentBlockIndex p,
                       NextContentBlockIndex := NextContentBlockIndex p + 1,
                       TextContentBlockStarted := True\<rparr>) i"
    using m ok assms(2)
    by (auto simp: expected_marks_def is_open_def indexes_ok_def split: if_splits)
qed

lemma blocks_ok_open_thinking:
  assumes "blocks_ok p es" "\<not> ThinkingContentBlockStarted p" "State p = StateInThinking"
  shows "blocks_ok (p\<lparr>ThinkingContentBlockIndex := NextContentBlockIndex p,
                       NextContentBlockIndex := NextContentBlockIndex p + 1,
                       ThinkingContentBlockStarted := True\<rparr>)
                   (es @ [ContentBlockStart (NextContentBlockIndex p) b])"
proof (rule blocks_okI)
  from assms show "indexes_ok (p\<lparr>ThinkingContentBlockIndex := NextContentBlockIndex p,
                       NextContentBlockIndex := NextContentBlockIndex p + 1,
                       ThinkingContentBlockStarted := True\<rparr>)"
    by (auto simp: blocks_ok_def indexes_ok_def split: if_splits)
next
  fix i
  from assms have m: "marks i es = expected_marks p i" and ok: "indexes_ok p"
    by (simp_all add: blocks_ok_def)
  show "marks i (es @ [ContentBlockStart (NextContentBlockIndex p) b]) =
        expected_marks (p\<lparr>ThinkingContentBlockIndex := NextContentBlockIndex p,
                       NextContentBlockIndex := NextContentBlockIndex p + 1,
                       ThinkingContentBlockStarted := True\<rparr>) i"
    using m ok assms(2)
    by (auto simp: expected_marks_def is_open_def indexes_ok_def split: if_splits)
qed

lemma blocks_ok_stop_text:
  assumes "blocks_ok p es" "TextContentBlockStarted p"
  shows "blocks_ok (p\<lparr>TextContentBlockStarted := False, TextContentBlockIndex := - 1\<rparr>)
                   (es @ [ContentBlockStop (TextContentBlockIndex p)])"
proof (rule blocks_okI)
  from assms show "indexes_ok (p\<lparr>TextContentBlockStarted := False, TextContentBlockIndex := - 1\<rparr>)"
    by (auto simp: blocks_ok_def indexes_ok_def split: if_splits)
next
  fix i
  from assms have m: "marks i es = expected_marks p i" and ok: "indexes_ok p"
    by (simp_all add: blocks_ok_def)
  show "marks i (es @ [ContentBlockStop (TextContentBlockIndex p)]) =
        expected_marks (p\<lparr>TextContentBlockStarted := False, TextContentBlockIndex := - 1\<rparr>) i"
    using m ok assms(2)
    by (auto simp: expected_marks_def is_open_def indexes_ok_def split: if_splits)
qed

lemma blocks_ok_stop_thinking:
  assumes "blocks_ok p es" "ThinkingContentBlockStarted p"
  shows "blocks_ok (p\<lparr>ThinkingContentBlockStarted := False, ThinkingContentBlockIndex := - 1\<rparr>)
                   (es @ [ContentBlockStop (ThinkingContentBlockIndex p)])"
proof (rule blocks_okI)
  from assms show "indexes_ok (p\<lparr>ThinkingContentBlockStarted := False, ThinkingContentBlockIndex := - 1\<rparr>)"
    by (auto simp: blocks_ok_def indexes_ok_def split: if_splits)
next
  fix i
  from assms have m: "marks i es = expected_marks p i" and ok: "indexes_ok p"
    by (simp_all add: blocks_ok_def)
  show "marks i (es @ [ContentBlockStop (ThinkingContentBlockIndex p)]) =
        expected_marks (p\<lparr>ThinkingContentBlockStarted := False, ThinkingContentBlockIndex := - 1\<rparr>) i"
    using m ok assms(2)
    by (auto simp: expected_marks_def is_open_def indexes_ok_def split: if_splits)
qed

lemma blocks_ok_tool:
  assumes "blocks_ok p es"
  shows "blocks_ok (p\<lparr>NextContentBlockIndex := NextContentBlockIndex p + 1, UUIDsDrawn := n\<rparr>)
                   (es @ [ContentBlockStart (NextContentBlockIndex p) b,
                          ContentBlockDelta (NextContentBlockIndex p) d,
                          ContentBlockStop (NextContentBlockIndex p)])"
proof (rule blocks_okI)
  from assms show "indexes_ok (p\<lparr>NextContentBlockIndex := NextContentBlockIndex p + 1, UUIDsDrawn := n\<rparr>)"
    by (auto simp: blocks_ok_def indexes_ok_def split: if_splits)
next
  fix i
  from assms have m: "marks i es = expected_marks p i" and ok: "indexes_ok p"
    by (simp_all add: blocks_ok_def)
  show "marks i (es @ [ContentBlockStart (NextContentBlockIndex p) b,
                          ContentBlockDelta (NextContentBlockIndex p) d,
                          ContentBlockStop (NextContentBlockIndex p)]) =
        expected_marks (p\<lparr>NextContentBlockIndex := NextContentBlockIndex p + 1, UUIDsDrawn := n\<rparr>) i"
    using m ok
    by (auto simp: expected_marks_def is_open_def indexes_ok_def split: if_splits)
qed

lemma blocks_ok_index_none:
  assumes "blocks_ok p es"
  shows "\<not> TextContentBlockStarted p \<Longrightarrow> TextContentBlockIndex p = - 1"
    and "\<not> ThinkingContentBlockStarted p \<Longrightarrow> ThinkingContentBlockIndex p = - 1"
    and "ThinkingContentBlockStarted p \<Longrightarrow> State p = StateInThinking"
  using assms by (auto simp: blocks_ok_def indexes_ok_def split: if_splits)

lemma extends_emitTextDelta: "extends p rs (emitTextDelta p rs text)"
proof -
  consider "text = []" | "text \<noteq> []" "TextContentBlockStarted p"
    | "text \<noteq> []" "\<not> TextContentBlockStarted p" "TextContentBlockIndex p = - 1"
    | "text \<noteq> []" "\<not> TextContentBlockStarted p" "TextContentBlockIndex p \<noteq> - 1"
    by blast
  then show ?thesis
  proof cases
    case 1
    then show ?thesis by (simp add: emitTextDelta_def)
  next
    case 2
    then show ?thesis
      by (intro extendsI[where new = "[ContentBlockDelta (TextContentBlockIndex p) (TextDelta (sjson_Set text))]"])
         (simp_all add: emitTextDelta_def blocks_ok_delta)
  next
    case 3
    show ?thesis
    proof (rule extendsI[where new = "[ContentBlockStart (NextContentBlockIndex p) TextBlock,
                    ContentBlockDelta (NextContentBlockIndex p) (TextDelta (sjson_Set text))]"])
      fix es assume "blocks_ok p es"
      from blocks_ok_delta[OF blocks_ok_open_text[OF this 3(2)]]
      show "blocks_ok (fst (emitTextDelta p rs text))
              (es @ [ContentBlockStart (NextContentBlockIndex p) TextBlock,
                     ContentBlockDelta (NextContentBlockIndex p) (TextDelta (sjson_Set text))])"
        using 3 by (simp add: emitTextDelta_def Let_def)
    qed (use 3 in \<open>auto simp: emitTextDelta_def Let_def\<close>)
  next
    case 4
    show ?thesis
    proof (rule extendsI[where new = "[ContentBlockStart (TextContentBlockIndex p) TextBlock,
                    ContentBlockDelta (TextContentBlockIndex p) (TextDelta (sjson_Set text))]"])
      fix es assume "blocks_ok p es"
      from blocks_ok_index_none(1)[OF this 4(2)] 4(3) have False by simp
      then show "blocks_ok (fst (emitTextDelta p rs text))
              (es @ [ContentBlockStart (TextContentBlockIndex p) TextBlock,
                     ContentBlockDelta (TextContentBlockIndex p) (TextDelta (sjson_Set text))])" ..
    qed (use 4 in \<open>auto simp: emitTextDelta_def Let_def\<close>)
  qed
qed

lemma extends_stopTextBlock: "extends p rs (stopTextBlock p rs)"
proof (cases "TextContentBlockStarted p")
  case False
  then show ?thesis by (simp add: stopTextBlock_def)
next
  case True
  then show ?thesis
    by (intro extendsI[where new = "[ContentBlockStop (TextContentBlockIndex p)]"])
       (simp_all add: stopTextBlock_def blocks_ok_stop_text)
qed

lemma extends_stopThinkingBlock: "extends p rs (stopThinkingBlock p rs)"
proof (cases "ThinkingContentBlockStarted p")
  case False
  then show ?thesis by (simp add: stopThinkingBlock_def)
next
  case True
  then show ?thesis
    by (intro extendsI[where new = "[ContentBlockStop (ThinkingContentBlockIndex p)]"])
       (simp_all add: stopThinkingBlock_def blocks_ok_stop_thinking)
qed

lemma startThinkingBlock_eq:
  "startThinkingBlock p rs =
     openThinking (fst (if TextContentBlockStarted p then stopTextBlock p rs else (p, rs)))
                  (snd (if TextContentBlockStarted p then stopTextBlock p rs else (p, rs)))"
  by (simp add: startThinkingBlock_def openThinking_def Let_def split_beta)

lemma extends_openThinking:
  assumes "State p = StateInThinking" "\<not> ThinkingContentBlockStarted p"
  shows "extends p rs (openThinking p rs)"
proof (cases "ThinkingContentBlockIndex p = - 1")
  case True
  show ?thesis
  proof (rule extendsI[where new = "[ContentBlockStart (NextContentBlockIndex p) ThinkingBlock]"])
    fix es assume ok: "blocks_ok p es"
    from blocks_ok_open_thinking[OF ok assms(2,1)]
    show "blocks_ok (fst (openThinking p rs)) (es @ [ContentBlockStart (NextContentBlockIndex p) ThinkingBlock])"
      using True by (simp add: openThinking_def)
  qed (use True in \<open>auto simp: openThinking_def\<close>)
next
  case False
  show ?thesis
  proof (rule extendsI[where new = "[ContentBlockStart (ThinkingContentBlockIndex p) ThinkingBlock]"])
    fix es assume ok: "blocks_ok p es"
    from blocks_ok_index_none(2)[OF ok assms(2)] False have False by simp
    then show "blocks_ok (fst (openThinking p rs)) (es @ [ContentBlockStart (ThinkingContentBlockIndex p) ThinkingBlock])" ..
  qed (use False in \<open>auto simp: openThinking_def\<close>)
qed

lemma extends_startThinkingBlock:
  assumes "State p = StateInThinking" "\<not> ThinkingContentBlockStarted p"
  shows "extends p rs (startThinkingBlock p rs)"
proof -
  let ?x = "if TextContentBlockStarted p then stopTextBlock p rs else (p, rs)"
  have 1: "extends p rs ?x" by (simp add: extends_stopTextBlock)
  have "State (fst ?x) = StateInThinking" "\<not> ThinkingContentBlockStarted (fst ?x)"
    using assms by (auto simp: stopTextBlock_def)
  then have "extends (fst ?x) (snd ?x) (openThinking (fst ?x) (snd ?x))"
    by (rule extends_openThinking)
  with 1 show ?thesis
    unfolding startThinkingBlock_eq by (rule extends_trans)
qed

lemma extends_emitThinkingDelta:
  assumes "State p = StateInThinking"
  shows "extends p rs (emitThinkingDelta p rs text)"
proof (cases "text = []")
  case True
  then show ?thesis by (simp add: emitThinkingDelta_def)
next
  case False
  let ?x = "if \<not> ThinkingContentBlockStarted p then startThinkingBlock p rs else (p, rs)"
  have 1: "extends p rs ?x"
    using assms by (simp add: extends_startThinkingBlock)
  have "extends (fst ?x) (snd ?x)
          (fst ?x, snd ?x @ [ContentBlockDelta (ThinkingContentBlockIndex (fst ?x)) (ThinkingDelta (sjson_Set text))])"
    by (rule extendsI[where new = "[ContentBlockDelta (ThinkingContentBlockIndex (fst ?x)) (ThinkingDelta (sjson_Set text))]"])
       (simp_all add: blocks_ok_delta)
  with 1 have "extends p rs
          (fst ?x, snd ?x @ [ContentBlockDelta (ThinkingContentBlockIndex (fst ?x)) (ThinkingDelta (sjson_Set text))])"
    by (rule extends_trans)
  moreover have "emitThinkingDelta p rs text =
          (fst ?x, snd ?x @ [ContentBlockDelta (ThinkingContentBlockIndex (fst ?x)) (ThinkingDelta (sjson_Set text))])"
    using False by (simp add: emitThinkingDelta_def split_beta)
  ultimately show ?thesis by simp
qed

lemma extends_tool:
  "extends q r (q\<lparr>NextContentBlockIndex := NextContentBlockIndex q + 1, UUIDsDrawn := n\<rparr>,
                r @ [ContentBlockStart (NextContentBlockIndex q) b,
                     ContentBlockDelta (NextContentBlockIndex q) d,
                     ContentBlockStop (NextContentBlockIndex q)])"
  by (rule extendsI[where new = "[ContentBlockStart (NextContentBlockIndex q) b,
                     ContentBlockDelta (NextContentBlockIndex q) d,
                     ContentBlockStop (NextContentBlockIndex q)]"])
     (auto simp: blocks_ok_tool)

lemma extends_emitToolCall: "extends p rs (emitToolCall lib p rs toolCall)"
proof -
  let ?x = "if TextContentBlockStarted p then stopTextBlock p rs else (p, rs)"
  let ?y = "if ThinkingContentBlockStarted (fst ?x) then stopThinkingBlock (fst ?x) (snd ?x) else ?x"
  let ?n = "NextContentBlockIndex (fst ?y)"
  let ?new = "[ContentBlockStart ?n (ToolUseBlock (''call_'' @ uuid_New lib (UUIDsDrawn (fst ?y))) (tool_Name toolCall)),
               ContentBlockDelta ?n (InputJSONDelta (json_Marshal lib (tool_Parameters toolCall))),
               ContentBlockStop ?n]"
  let ?z = "((fst ?y)\<lparr>NextContentBlockIndex := ?n + 1, UUIDsDrawn := UUIDsDrawn (fst ?y) + 1\<rparr>, snd ?y @ ?new)"
  have 1: "extends p rs ?x" by (simp add: extends_stopTextBlock)
  have 2: "extends (fst ?x) (snd ?x) ?y" by (simp add: extends_stopThinkingBlock)
  have 3: "extends (fst ?y) (snd ?y) ?z"
    by (rule extends_tool)
  have "emitToolCall lib p rs toolCall = ?z"
    by (simp add: emitToolCall_def Let_def split_beta)
  with extends_trans[OF extends_trans[OF 1 2] 3] show ?thesis by simp
qed

lemma extends_state:
  assumes "extends p rs x"
    and "State (fst x) \<noteq> StateInThinking \<or> s = StateInThinking \<or> \<not> ThinkingContentBlockStarted (fst x)"
  shows "extends p rs ((fst x)\<lparr>State := s, Buffer := b\<rparr>, snd x)"
proof -
  from assms(1) obtain new where n: "snd x = rs @ new" "\<forall>e \<in> set new. block_event e"
    "MessageStarted (fst x) = MessageStarted p" "\<forall>es. blocks_ok p es \<longrightarrow> blocks_ok (fst x) (es @ new)"
    unfolding extends_def by blast
  show ?thesis
  proof (rule extendsI[where new = new])
    fix es assume "blocks_ok p es"
    with n(4) have ok: "blocks_ok (fst x) (es @ new)" by blast
    with assms(2) blocks_ok_index_none(3)[OF ok]
    have "\<not> ThinkingContentBlockStarted (fst x) \<or> s = StateInThinking" by blast
    from blocks_ok_state[OF ok this]
    show "blocks_ok (fst ((fst x)\<lparr>State := s, Buffer := b\<rparr>, snd x)) (es @ new)" by simp
  qed (use n in auto)
qed

lemma extends_Buffer:
  assumes "extends p rs x"
  shows "extends p rs ((fst x)\<lparr>Buffer := b\<rparr>, snd x)"
  using assms by (auto simp: extends_def)

lemma shape_startThinkingBlock:
  "\<exists>new. snd (startThinkingBlock p rs) = rs @ new \<and> (\<forall>e \<in> set new. block_event e)
     \<and> MessageStarted (fst (startThinkingBlock p rs)) = MessageStarted p"
  by (auto simp: startThinkingBlock_def stopTextBlock_def Let_def)

lemma extends_enterThinking:
  assumes "State q \<noteq> StateInThinking"
  shows "extends q r (startThinkingBlock (q\<lparr>State := StateInThinking, Buffer := b\<rparr>) r)"
proof (cases "ThinkingContentBlockStarted q")
  case False
  have "extends q r (fst (q, r)\<lparr>State := StateInThinking, Buffer := b\<rparr>, snd (q, r))"
    by (rule extends_state) simp_all
  then have 1: "extends q r (q\<lparr>State := StateInThinking, Buffer := b\<rparr>, r)" by simp
  have 2: "extends (q\<lparr>State := StateInThinking, Buffer := b\<rparr>) r
             (startThinkingBlock (q\<lparr>State := StateInThinking, Buffer := b\<rparr>) r)"
    using False by (intro extends_startThinkingBlock) simp_all
  from extends_trans[OF 1] 2 show ?thesis by simp
next
  case True
  from shape_startThinkingBlock[of "q\<lparr>State := StateInThinking, Buffer := b\<rparr>" r]
  obtain new where n: "snd (startThinkingBlock (q\<lparr>State := StateInThinking, Buffer := b\<rparr>) r) = r @ new"
    "\<forall>e \<in> set new. block_event e"
    "MessageStarted (fst (startThinkingBlock (q\<lparr>State := StateInThinking, Buffer := b\<rparr>) r)) = MessageStarted q"
    by auto
  show ?thesis
  proof (rule extendsI[where new = new])
    fix es assume "blocks_ok q es"
    from blocks_ok_index_none(3)[OF this True] assms have False by simp
    then show "blocks_ok (fst (startThinkingBlock (q\<lparr>State := StateInThinking, Buffer := b\<rparr>) r)) (es @ new)" ..
  qed (use n in auto)
qed

lemma Started_stopThinkingBlock [simp]:
  "\<not> ThinkingContentBlockStarted (fst (stopThinkingBlock p rs))"
  by (simp add: stopThinkingBlock_def)

lemma Started_emitToolCall [simp]:
  "\<not> ThinkingContentBlockStarted (fst (emitToolCall lib p rs toolCall))"
  by (simp add: emitToolCall_def Let_def split_beta stopThinkingBlock_def stopTextBlock_def)

lemma extends_body_Normal:
  assumes "State p = StateNormal"
    and "processBuffer_body lib p rs = Continue x \<or> processBuffer_body lib p rs = Return x"
  shows "extends p rs x"
proof (cases "firstTag (Buffer p)")
  case None
  let ?c = "Buffer p"
  from None assms consider
      "x = ((fst (emitTextDelta p rs (take (length ?c - 15) ?c)))\<lparr>Buffer := drop (length ?c - 15) ?c\<rparr>,
            snd (emitTextDelta p rs (take (length ?c - 15) ?c)))"
    | "x = (p, rs)"
    | "x = ((fst (emitTextDelta p rs ?c))\<lparr>Buffer := []\<rparr>, snd (emitTextDelta p rs ?c))"
    by (auto simp: processBuffer_body_def Let_def split_beta split: if_splits)
  then show ?thesis
    by cases (simp_all add: extends_Buffer extends_emitTextDelta)
next
  case (Some a)
  obtain i tagType where a: "a = (i, tagType)" by (cases a)
  let ?c = "Buffer p"
  let ?y = "if i > 0 then emitTextDelta p rs (take i ?c) else (p, rs)"
  have y: "extends p rs ?y" by (simp add: extends_emitTextDelta)
  have sy: "State (fst ?y) = StateNormal" using assms(1) by simp
  show ?thesis
  proof (cases "tagType = ''thinking''")
    case True
    with Some a assms have x: "x = startThinkingBlock
         ((fst ?y)\<lparr>State := StateInThinking, Buffer := drop (i + length tagThinkingStart) ?c\<rparr>) (snd ?y)"
      by (auto simp: processBuffer_body_def Let_def split_beta)
    have "extends (fst ?y) (snd ?y) x"
      unfolding x using sy by (intro extends_enterThinking) simp
    with y show ?thesis by (rule extends_trans)
  next
    case False
    with Some a assms have x: "x = ((fst ?y)\<lparr>State := StateInToolCall, Buffer := drop (i + length tagToolCallStart) ?c\<rparr>, snd ?y)"
      by (auto simp: processBuffer_body_def Let_def split_beta)
    show ?thesis unfolding x using y sy by (intro extends_state) simp_all
  qed
qed

lemma extends_body_InThinking:
  assumes "State p = StateInThinking"
    and "processBuffer_body lib p rs = Continue x \<or> processBuffer_body lib p rs = Return x"
  shows "extends p rs x"
proof (cases "Index (Buffer p) tagThinkingEnd")
  case None
  let ?c = "Buffer p"
  from None assms consider
      "x = ((fst (emitThinkingDelta p rs (take (length ?c - 15) ?c)))\<lparr>Buffer := drop (length ?c - 15) ?c\<rparr>,
            snd (emitThinkingDelta p rs (take (length ?c - 15) ?c)))"
    | "x = (p, rs)"
    | "x = ((fst (emitThinkingDelta p rs ?c))\<lparr>Buffer := []\<rparr>, snd (emitThinkingDelta p rs ?c))"
    by (auto simp: processBuffer_body_def Let_def split_beta split: if_splits)
  then show ?thesis
    using assms(1) by cases (simp_all add: extends_Buffer extends_emitThinkingDelta)
next
  case (Some endIdx)
  let ?c = "Buffer p"
  let ?y = "emitThinkingDelta p rs (take endIdx ?c)"
  let ?z = "stopThinkingBlock (fst ?y) (snd ?y)"
  from Some assms have x: "x = ((fst ?z)\<lparr>State := StateNormal, Buffer := drop (endIdx + length tagThinkingEnd) ?c\<rparr>, snd ?z)"
    by (auto simp: processBuffer_body_def Let_def split_beta)
  have "extends p rs ?y" using assms(1) by (rule extends_emitThinkingDelta)
  moreover have "extends (fst ?y) (snd ?y) ?z" by (rule extends_stopThinkingBlock)
  ultimately have "extends p rs ?z" by (rule extends_trans)
  then show ?thesis unfolding x by (intro extends_state) simp_all
qed

lemma extends_body_InToolCall:
  assumes "State p = StateInToolCall"
    and "processBuffer_body lib p rs = Continue x \<or> processBuffer_body lib p rs = Return x"
  shows "extends p rs x"
proof (cases "Index (Buffer p) tagToolCallEnd")
  case None
  with assms have "x = (p, rs)"
    by (auto simp: processBuffer_body_def Let_def split_beta)
  then show ?thesis by simp
next
  case (Some endIdx)
  let ?c = "Buffer p"
  let ?y = "case xml_Unmarshal lib (tagToolCallStart @ take endIdx ?c @ tagToolCallEnd) of
              Some toolCall \<Rightarrow> emitToolCall lib p rs toolCall | None \<Rightarrow> (p, rs)"
  from Some assms have x: "x = ((fst ?y)\<lparr>State := StateNormal, Buffer := drop (endIdx + length tagToolCallEnd) ?c\<rparr>, snd ?y)"
    by (auto simp: processBuffer_body_def Let_def split_beta)
  have y: "extends p rs ?y" by (simp add: extends_emitToolCall split: option.splits)
  have "State (fst ?y) = StateInToolCall" using assms(1) by (simp split: option.splits)
  with y show ?thesis unfolding x by (intro extends_state) simp_all
qed

lemma extends_body:
  assumes "processBuffer_body lib p rs = Continue x \<or> processBuffer_body lib p rs = Return x"
  shows "extends p rs x"
  using assms extends_body_Normal extends_body_InThinking extends_body_InToolCall
  by (cases "State p") blast+

lemma extends_processBuffer: "extends p rs (processBuffer lib p rs)"
proof (induction lib p rs rule: processBuffer.induct)
  case (1 lib p results)
  show ?case
  proof (cases "length (Buffer p) > 0")
    case False
    then show ?thesis by (simp add: processBuffer.simps[of lib p results])
  next
    case True
    show ?thesis
    proof (cases "processBuffer_body lib p results")
      case (Return r)
      with True have "processBuffer lib p results = r"
        by (simp add: processBuffer.simps[of lib p results])
      with extends_body[of lib p results r] Return show ?thesis by simp
    next
      case (Continue x)
      obtain p' results' where x: "x = (p', results')" by (cases x)
      with True Continue have eq: "processBuffer lib p results = processBuffer lib p' results'"
        by (simp add: processBuffer.simps[of lib p results])
      from "1.IH"[OF True Continue x[symmetric]]
      have "extends p' results' (processBuffer lib p' results')" .
      moreover have "extends p results (p', results')"
        using extends_body[of lib p results x] Continue x by simp
      ultimately show ?thesis
        unfolding eq using extends_trans[of p results "(p', results')"] by simp
    qed
  qed
qed

lemma PaCoReToClaudeResponse_eq:
  "PaCoReToClaudeResponse lib model rawJSON param =
     (if chunkContent rawJSON = []
      then (if gjson_finish_reason rawJSON \<noteq> []
            then (snd (handleFinish (started lib model (param_or_new param)) (gjson_finish_reason rawJSON)),
                  Some (fst (handleFinish (started lib model (param_or_new param)) (gjson_finish_reason rawJSON))))
            else (prologue lib model (param_or_new param), Some (started lib model (param_or_new param))))
      else (snd (processBuffer lib ((started lib model (param_or_new param))
                     \<lparr>Buffer := Buffer (started lib model (param_or_new param)) @ chunkContent rawJSON\<rparr>)
                   (prologue lib model (param_or_new param))),
            Some (fst (processBuffer lib ((started lib model (param_or_new param))
                     \<lparr>Buffer := Buffer (started lib model (param_or_new param)) @ chunkContent rawJSON\<rparr>)
                   (prologue lib model (param_or_new param))))))"
  by (simp add: PaCoReToClaudeResponse_def chunkContent_def param_or_new_def started_def prologue_def
      Let_def split_beta)

lemma blocks_ok_started [simp]: "blocks_ok (started lib model p) es = blocks_ok p es"
  by (simp add: started_def blocks_ok_def indexes_ok_def expected_marks_def is_open_def)

lemma MessageStarted_started [simp]: "MessageStarted (started lib model p)"
  by (simp add: started_def)

lemma marks_block_free: "\<forall>e \<in> set es. \<not> block_event e \<Longrightarrow> marks i es = []"
  by (induction i es rule: marks.induct) auto

lemma marks_prologue [simp]: "marks i (prologue lib model p) = []"
  by (simp add: prologue_def)

lemma blocks_ok_prologue [simp]: "blocks_ok p (es @ prologue lib model q) = blocks_ok p es"
  by (simp add: blocks_ok_def)

lemma handleFinish_shape:
  "\<exists>stops. snd (handleFinish p reason) =
              stops @ [MessageDelta (if reason = ''tool_calls'' then ''tool_use'' else ''end_turn''), MessageStop]
      \<and> (\<forall>e \<in> set stops. block_event e)
      \<and> MessageStarted (fst (handleFinish p reason)) = MessageStarted p
      \<and> \<not> TextContentBlockStarted (fst (handleFinish p reason))
      \<and> \<not> ThinkingContentBlockStarted (fst (handleFinish p reason))
      \<and> (\<forall>es. blocks_ok p es \<longrightarrow> blocks_ok (fst (handleFinish p reason)) (es @ snd (handleFinish p reason)))"
proof -
  let ?x = "if ThinkingContentBlockStarted p then stopThinkingBlock p [] else (p, [])"
  let ?y = "if TextContentBlockStarted (fst ?x) then stopTextBlock (fst ?x) (snd ?x) else ?x"
  let ?tail = "[MessageDelta (if reason = ''tool_calls'' then ''tool_use'' else ''end_turn''), MessageStop]"
  have hf: "handleFinish p reason = (fst ?y, snd ?y @ ?tail)"
    by (simp add: handleFinish_def Let_def split_beta)
  have "extends p [] ?x" by (simp add: extends_stopThinkingBlock)
  moreover have "extends (fst ?x) (snd ?x) ?y" by (simp add: extends_stopTextBlock)
  ultimately have "extends p [] ?y" by (rule extends_trans)
  then obtain new where n: "snd ?y = new" "\<forall>e \<in> set new. block_event e"
    "MessageStarted (fst ?y) = MessageStarted p" "\<forall>es. blocks_ok p es \<longrightarrow> blocks_ok (fst ?y) (es @ new)"
    unfolding extends_def by auto
  have closed: "\<not> TextContentBlockStarted (fst ?y)" "\<not> ThinkingContentBlockStarted (fst ?y)"
    by (auto simp: stopTextBlock_def stopThinkingBlock_def)
  have "\<forall>es. blocks_ok p es \<longrightarrow> blocks_ok (fst ?y) (es @ new @ ?tail)"
  proof (intro allI impI)
    fix es assume "blocks_ok p es"
    with n(4) have "blocks_ok (fst ?y) (es @ new)" by blast
    then show "blocks_ok (fst ?y) (es @ new @ ?tail)" by (simp add: blocks_ok_def)
  qed
  with n closed show ?thesis
    unfolding hf by (intro exI[of _ new]) simp
qed

text \<open>What one call does to the state and what it returns.\<close>

lemma call_finishes:
  assumes "finishes rawJSON"
  shows "\<exists>p' stops r. PaCoReToClaudeResponse lib model rawJSON param = (stops @ [MessageDelta r, MessageStop], Some p')
      \<and> (\<forall>e \<in> set stops. block_event e)
      \<and> MessageStarted p'
      \<and> \<not> TextContentBlockStarted p' \<and> \<not> ThinkingContentBlockStarted p'
      \<and> (\<forall>es. blocks_ok (param_or_new param) es \<longrightarrow> blocks_ok p' (es @ stops @ [MessageDelta r, MessageStop]))"
proof -
  let ?p = "started lib model (param_or_new param)"
  let ?h = "handleFinish ?p (gjson_finish_reason rawJSON)"
  from assms have eq: "PaCoReToClaudeResponse lib model rawJSON param = (snd ?h, Some (fst ?h))"
    by (simp add: PaCoReToClaudeResponse_eq finishes_def)
  from handleFinish_shape[of ?p "gjson_finish_reason rawJSON"] obtain stops where
    s: "snd ?h = stops @ [MessageDelta (if gjson_finish_reason rawJSON = ''tool_calls'' then ''tool_use'' else ''end_turn''), MessageStop]"
      "\<forall>e \<in> set stops. block_event e"
      "MessageStarted (fst ?h) = MessageStarted ?p"
      "\<not> TextContentBlockStarted (fst ?h)" "\<not> ThinkingContentBlockStarted (fst ?h)"
      "\<forall>es. blocks_ok ?p es \<longrightarrow> blocks_ok (fst ?h) (es @ snd ?h)"
    by blast
  show ?thesis
    unfolding eq using s
    by (intro exI[of _ "fst ?h"] exI[of _ stops]
          exI[of _ "if gjson_finish_reason rawJSON = ''tool_calls'' then ''tool_use'' else ''end_turn''"])
       simp
qed

lemma call_other:
  assumes "\<not> finishes rawJSON"
  shows "\<exists>p' new. PaCoReToClaudeResponse lib model rawJSON param
                     = (prologue lib model (param_or_new param) @ new, Some p')
      \<and> (\<forall>e \<in> set new. block_event e)
      \<and> MessageStarted p'
      \<and> (\<forall>es. blocks_ok (param_or_new param) es
               \<longrightarrow> blocks_ok p' (es @ prologue lib model (param_or_new param) @ new))"
proof (cases "chunkContent rawJSON = []")
  case True
  with assms have "PaCoReToClaudeResponse lib model rawJSON param
      = (prologue lib model (param_or_new param), Some (started lib model (param_or_new param)))"
    by (simp add: PaCoReToClaudeResponse_eq finishes_def)
  then show ?thesis
    by (intro exI[of _ "started lib model (param_or_new param)"] exI[of _ "[]"]) simp
next
  case False
  let ?p = "started lib model (param_or_new param)"
  let ?q = "?p\<lparr>Buffer := Buffer ?p @ chunkContent rawJSON\<rparr>"
  let ?r = "processBuffer lib ?q (prologue lib model (param_or_new param))"
  from False have eq: "PaCoReToClaudeResponse lib model rawJSON param = (snd ?r, Some (fst ?r))"
    by (simp add: PaCoReToClaudeResponse_eq)
  from extends_processBuffer[of ?q "prologue lib model (param_or_new param)" lib]
  obtain new where n: "snd ?r = prologue lib model (param_or_new param) @ new"
    "\<forall>e \<in> set new. block_event e" "MessageStarted (fst ?r) = MessageStarted ?q"
    "\<forall>es. blocks_ok ?q es \<longrightarrow> blocks_ok (fst ?r) (es @ new)"
    unfolding extends_def by blast
  have "\<forall>es. blocks_ok (param_or_new param) es
               \<longrightarrow> blocks_ok (fst ?r) (es @ prologue lib model (param_or_new param) @ new)"
  proof (intro allI impI)
    fix es assume "blocks_ok (param_or_new param) es"
    then have "blocks_ok ?q (es @ prologue lib model (param_or_new param))"
      by simp
    with n(4) show "blocks_ok (fst ?r) (es @ prologue lib model (param_or_new param) @ new)"
      by (metis append.assoc)
  qed
  with n show ?thesis
    unfolding eq by (intro exI[of _ "fst ?r"] exI[of _ new]) simp
qed

lemma call_blocks:
  "\<exists>p'. snd (PaCoReToClaudeResponse lib model rawJSON param) = Some p'
     \<and> MessageStarted p'
     \<and> (finishes rawJSON \<longrightarrow> \<not> TextContentBlockStarted p' \<and> \<not> ThinkingContentBlockStarted p')
     \<and> (\<forall>es. blocks_ok (param_or_new param) es
              \<longrightarrow> blocks_ok p' (es @ fst (PaCoReToClaudeResponse lib model rawJSON param)))"
proof (cases "finishes rawJSON")
  case True
  from call_finishes[OF this, of lib model param] show ?thesis by force
next
  case False
  from call_other[OF this, of lib model param] show ?thesis using False by force
qed

lemma transcode_Cons:
  "transcode lib model (c # cs) param =
     (fst (PaCoReToClaudeResponse lib model c param)
        @ fst (transcode lib model cs (snd (PaCoReToClaudeResponse lib model c param))),
      snd (transcode lib model cs (snd (PaCoReToClaudeResponse lib model c param))))"
  by (simp add: split_beta)

lemma transcode_blocks:
  assumes "chunks \<noteq> []"
  shows "\<exists>p'. snd (transcode lib model chunks param) = Some p'
     \<and> MessageStarted p'
     \<and> (finishes (last chunks) \<longrightarrow> \<not> TextContentBlockStarted p' \<and> \<not> ThinkingContentBlockStarted p')
     \<and> (\<forall>es. blocks_ok (param_or_new param) es
              \<longrightarrow> blocks_ok p' (es @ fst (transcode lib model chunks param)))"
  using assms
proof (induction chunks arbitrary: param)
  case Nil
  then show ?case by simp
next
  case (Cons c cs)
  from call_blocks[of lib model c param] obtain p1 where
    1: "snd (PaCoReToClaudeResponse lib model c param) = Some p1" "MessageStarted p1"
       "finishes c \<longrightarrow> \<not> TextContentBlockStarted p1 \<and> \<not> ThinkingContentBlockStarted p1"
       "\<forall>es. blocks_ok (param_or_new param) es
              \<longrightarrow> blocks_ok p1 (es @ fst (PaCoReToClaudeResponse lib model c param))"
    by blast
  show ?case
  proof (cases "cs = []")
    case True
    with 1 show ?thesis by (simp add: transcode_Cons del: transcode.simps(2))
  next
    case False
    from Cons.IH[OF False, of "Some p1"] obtain p' where
      2: "snd (transcode lib model cs (Some p1)) = Some p'" "MessageStarted p'"
         "finishes (last cs) \<longrightarrow> \<not> TextContentBlockStarted p' \<and> \<not> ThinkingContentBlockStarted p'"
         "\<forall>es. blocks_ok p1 es \<longrightarrow> blocks_ok p' (es @ fst (transcode lib model cs (Some p1)))"
      by (auto simp: param_or_new_def)
    have "\<forall>es. blocks_ok (param_or_new param) es
              \<longrightarrow> blocks_ok p' (es @ fst (PaCoReToClaudeResponse lib model c param)
                                    @ fst (transcode lib model cs (Some p1)))"
      using 1(4) 2(4) by (metis append.assoc)
    with 1 2 False show ?thesis
      by (simp add: transcode_Cons del: transcode.simps(2))
  qed
qed

lemma blocks_ok_newParams: "blocks_ok newParams []"
  by (auto simp: blocks_ok_def indexes_ok_def expected_marks_def newParams_def)

lemma count_stops_marks:
  "length (filter (\<lambda>e. e = ContentBlockStop i) es) = length (filter Not (marks i es))"
  by (induction i es rule: marks.induct) auto

text \<open>
  C2, as the code has it: in a stream whose last chunk is handled by the finish
  handler (it has no content and a finish reason), every \<open>content_block_start\<close> of
  index \<open>i\<close> is followed by exactly one \<open>content_block_stop\<close> of index \<open>i\<close>, and
  none precedes it. The stream starts from a nil \<open>*param\<close>; the chunks before the
  last are arbitrary.
\<close>

theorem content_blocks_paired:
  assumes "chunks \<noteq> []" and "finishes (last chunks)"
    and "k < length (fst (transcode lib model chunks None))"
    and "fst (transcode lib model chunks None) ! k = ContentBlockStart i b"
  shows "length (filter (\<lambda>e. e = ContentBlockStop i)
                   (drop (Suc k) (fst (transcode lib model chunks None)))) = 1
       \<and> ContentBlockStop i \<notin> set (take k (fst (transcode lib model chunks None)))"
proof -
  let ?es = "fst (transcode lib model chunks None)"
  from transcode_blocks[OF assms(1), of lib model None] assms(2) blocks_ok_newParams
  obtain p' where p': "\<not> TextContentBlockStarted p'" "\<not> ThinkingContentBlockStarted p'"
    "blocks_ok p' ?es"
    by (auto simp: param_or_new_def)
  then have m: "marks i ?es = (if i < 0 \<or> NextContentBlockIndex p' \<le> i then [] else [True, False])"
    by (simp add: blocks_ok_def expected_marks_def is_open_def)
  have split: "?es = take k ?es @ ContentBlockStart i b # drop (Suc k) ?es"
    using assms(3,4) by (metis id_take_nth_drop)
  have "marks i ?es = marks i (take k ?es) @ True # marks i (drop (Suc k) ?es)"
    by (subst split) simp
  with m have "marks i (take k ?es) @ True # marks i (drop (Suc k) ?es) = [True, False]"
    by (auto split: if_splits)
  then have a: "marks i (take k ?es) = []" and b: "marks i (drop (Suc k) ?es) = [False]"
    by (auto simp: append_eq_Cons_conv Cons_eq_append_conv)
  from b have "length (filter (\<lambda>e. e = ContentBlockStop i) (drop (Suc k) ?es)) = 1"
    by (simp add: count_stops_marks)
  moreover from a have "length (filter (\<lambda>e. e = ContentBlockStop i) (take k ?es)) = 0"
    by (simp add: count_stops_marks)
  then have "ContentBlockStop i \<notin> set (take k ?es)"
    by (auto simp: filter_empty_conv)
  ultimately show ?thesis by simp
qed

lemma block_events_no_message:
  assumes "\<forall>e \<in> set es. block_event e"
  shows "MessageStart i m \<notin> set es" and "MessageStop \<notin> set es"
  using assms by auto

lemma call_no_MessageStart:
  assumes "MessageStarted (param_or_new param)"
  shows "\<forall>e \<in> set (fst (PaCoReToClaudeResponse lib model rawJSON param)). \<forall>i m. e \<noteq> MessageStart i m"
proof (cases "finishes rawJSON")
  case True
  from call_finishes[OF this, of lib model param] obtain stops r where
    "fst (PaCoReToClaudeResponse lib model rawJSON param) = stops @ [MessageDelta r, MessageStop]"
    "\<forall>e \<in> set stops. block_event e"
    by force
  with block_events_no_message(1)[of stops] show ?thesis by auto
next
  case False
  from call_other[OF this, of lib model param] assms obtain new where
    "fst (PaCoReToClaudeResponse lib model rawJSON param) = new"
    "\<forall>e \<in> set new. block_event e"
    by (auto simp: prologue_def)
  with block_events_no_message(1)[of new] show ?thesis by auto
qed

lemma transcode_no_MessageStart:
  assumes "MessageStarted p"
  shows "\<forall>e \<in> set (fst (transcode lib model chunks (Some p))). \<forall>i m. e \<noteq> MessageStart i m"
  using assms
proof (induction chunks arbitrary: p)
  case Nil
  then show ?case by simp
next
  case (Cons c cs)
  from call_blocks[of lib model c "Some p"] obtain p1 where
    1: "snd (PaCoReToClaudeResponse lib model c (Some p)) = Some p1" "MessageStarted p1"
    by blast
  from call_no_MessageStart[of "Some p" lib model c] Cons.prems
  have "\<forall>e \<in> set (fst (PaCoReToClaudeResponse lib model c (Some p))). \<forall>i m. e \<noteq> MessageStart i m"
    by (simp add: param_or_new_def)
  with Cons.IH[OF 1(2)] 1(1) show ?case
    by (auto simp: transcode_Cons simp del: transcode.simps(2))
qed

lemma transcode_no_MessageStop:
  assumes "\<forall>c \<in> set chunks. \<not> finishes c"
  shows "MessageStop \<notin> set (fst (transcode lib model chunks param))"
  using assms
proof (induction chunks arbitrary: param)
  case Nil
  then show ?case by simp
next
  case (Cons c cs)
  then have "\<not> finishes c" by simp
  from call_other[OF this, of lib model param] obtain new where
    "fst (PaCoReToClaudeResponse lib model c param) = prologue lib model (param_or_new param) @ new"
    "\<forall>e \<in> set new. block_event e"
    by force
  with block_events_no_message(2)[of new]
  have "MessageStop \<notin> set (fst (PaCoReToClaudeResponse lib model c param))"
    by (auto simp: prologue_def)
  with Cons show ?case
    by (auto simp: transcode_Cons simp del: transcode.simps(2))
qed

lemma transcode_append:
  "transcode lib model (xs @ ys) param =
     (fst (transcode lib model xs param) @ fst (transcode lib model ys (snd (transcode lib model xs param))),
      snd (transcode lib model ys (snd (transcode lib model xs param))))"
  by (induction xs arbitrary: param) (simp_all add: split_beta)

text \<open>
  C3, as the code has it. When the first chunk of a stream is not handled by the
  finish handler, \<open>message_start\<close> is the first event and occurs once. When the last
  chunk is handled by the finish handler and no chunk before it is, \<open>message_stop\<close>
  is the last event and occurs once. Nothing is said of a stream whose first chunk is
  handled by the finish handler.
\<close>

theorem message_lifecycle:
  assumes "chunks \<noteq> []"
  shows "(\<not> finishes (hd chunks) \<longrightarrow>
            (\<exists>rest. fst (transcode lib model chunks None)
                       = MessageStart (''msg_'' @ uuid_New lib 0) model # rest
                   \<and> (\<forall>e \<in> set rest. \<forall>i m. e \<noteq> MessageStart i m)))
       \<and> (finishes (last chunks) \<and> (\<forall>c \<in> set (butlast chunks). \<not> finishes c) \<longrightarrow>
            (\<exists>pre. fst (transcode lib model chunks None) = pre @ [MessageStop]
                  \<and> MessageStop \<notin> set pre))"
proof (intro conjI impI)
  assume nf: "\<not> finishes (hd chunks)"
  from assms obtain c cs where ch: "chunks = c # cs" by (cases chunks) auto
  with nf have "\<not> finishes c" by simp
  from call_other[OF this, of lib model None] obtain p1 new where
    1: "PaCoReToClaudeResponse lib model c None = (prologue lib model newParams @ new, Some p1)"
       "\<forall>e \<in> set new. block_event e" "MessageStarted p1"
    by (auto simp: param_or_new_def)
  have pro: "prologue lib model newParams = [MessageStart (''msg_'' @ uuid_New lib 0) model]"
    by (simp add: prologue_def newParams_def)
  from transcode_no_MessageStart[OF 1(3), of lib model cs]
  have 2: "\<forall>e \<in> set (fst (transcode lib model cs (Some p1))). \<forall>i m. e \<noteq> MessageStart i m" .
  have "fst (transcode lib model chunks None)
          = MessageStart (''msg_'' @ uuid_New lib 0) model # (new @ fst (transcode lib model cs (Some p1)))"
    using 1(1) pro by (simp add: ch transcode_Cons del: transcode.simps(2))
  moreover have "\<forall>e \<in> set (new @ fst (transcode lib model cs (Some p1))). \<forall>i m. e \<noteq> MessageStart i m"
    using block_events_no_message(1)[OF 1(2)] 2 by auto
  ultimately show "\<exists>rest. fst (transcode lib model chunks None)
                       = MessageStart (''msg_'' @ uuid_New lib 0) model # rest
                   \<and> (\<forall>e \<in> set rest. \<forall>i m. e \<noteq> MessageStart i m)"
    by blast
next
  assume a: "finishes (last chunks) \<and> (\<forall>c \<in> set (butlast chunks). \<not> finishes c)"
  let ?xs = "butlast chunks"
  let ?mid = "snd (transcode lib model ?xs None)"
  from assms have ch: "chunks = ?xs @ [last chunks]" by simp
  from a have fin: "finishes (last chunks)" and nf: "\<forall>c \<in> set ?xs. \<not> finishes c" by simp_all
  from call_finishes[OF fin, of lib model ?mid] obtain p' stops r where
    1: "PaCoReToClaudeResponse lib model (last chunks) ?mid = (stops @ [MessageDelta r, MessageStop], Some p')"
       "\<forall>e \<in> set stops. block_event e"
    by blast
  have "fst (transcode lib model chunks None)
          = (fst (transcode lib model ?xs None) @ stops @ [MessageDelta r]) @ [MessageStop]"
    by (subst ch, subst transcode_append) (simp add: 1(1))
  moreover have "MessageStop \<notin> set (fst (transcode lib model ?xs None) @ stops @ [MessageDelta r])"
    using transcode_no_MessageStop[OF nf, of lib model None] block_events_no_message(2)[OF 1(2)] by auto
  ultimately show "\<exists>pre. fst (transcode lib model chunks None) = pre @ [MessageStop]
                  \<and> MessageStop \<notin> set pre"
    by blast
qed

text \<open>
  The stream of the raw-text test, closed by a chunk whose finish reason is
  \<open>stop\<close>.
\<close>

lemma example_stream:
  "fst (transcode example_lib ''pacore-test''
          [NotJson ''Hello '', NotJson ''<thinking>Hmm</thinking>'', NotJson ''World'', Json [] ''stop''] None)
     = [MessageStart ''msg_u'' ''pacore-test'',
        ContentBlockStart 0 TextBlock, ContentBlockDelta 0 (TextDelta ''Hello ''), ContentBlockStop 0,
        ContentBlockStart 1 ThinkingBlock, ContentBlockDelta 1 (ThinkingDelta ''Hmm''), ContentBlockStop 1,
        ContentBlockStart 2 TextBlock, ContentBlockDelta 2 (TextDelta ''World''), ContentBlockStop 2,
        MessageDelta ''end_turn'', MessageStop]"
  by code_simp

text \<open>
  C3 at the example stream.
\<close>

theorem message_lifecycle_witness:
  "(\<exists>rest. fst (transcode example_lib ''pacore-test''
                  [NotJson ''Hello '', NotJson ''<thinking>Hmm</thinking>'', NotJson ''World'', Json [] ''stop''] None)
             = MessageStart ''msg_u'' ''pacore-test'' # rest
         \<and> (\<forall>e \<in> set rest. \<forall>i m. e \<noteq> MessageStart i m))
   \<and> (\<exists>pre. fst (transcode example_lib ''pacore-test''
                  [NotJson ''Hello '', NotJson ''<thinking>Hmm</thinking>'', NotJson ''World'', Json [] ''stop''] None)
             = pre @ [MessageStop]
         \<and> MessageStop \<notin> set pre)"
  using message_lifecycle[of "[NotJson ''Hello '', NotJson ''<thinking>Hmm</thinking>'', NotJson ''World'', Json [] ''stop'']"
          example_lib "''pacore-test''"]
  by (simp add: finishes_def chunkContent_def example_lib_def)

text \<open>
  C3 as stated fails: when the first chunk is handled by the finish handler, the
  \<open>message_start\<close> event built by the prologue is discarded with \<open>results\<close>, and a
  chunk fed after \<open>message_stop\<close> is transcoded like any other, so \<open>message_stop\<close>
  is not the last event.
\<close>

theorem message_lifecycle_counterexample:
  "fst (transcode example_lib ''pacore-test'' [Json [] ''stop'', Json ''b'' []] None)
     = [MessageDelta ''end_turn'', MessageStop,
        ContentBlockStart 0 TextBlock, ContentBlockDelta 0 (TextDelta ''b'')]"
  by code_simp

text \<open>
  C2 at the example stream, for the thinking block started by the event at position 4.
\<close>

theorem content_blocks_paired_witness:
  "length (filter (\<lambda>e. e = ContentBlockStop 1)
       (drop (Suc 4) (fst (transcode example_lib ''pacore-test''
          [NotJson ''Hello '', NotJson ''<thinking>Hmm</thinking>'', NotJson ''World'', Json [] ''stop''] None)))) = 1
   \<and> ContentBlockStop 1 \<notin> set (take 4 (fst (transcode example_lib ''pacore-test''
          [NotJson ''Hello '', NotJson ''<thinking>Hmm</thinking>'', NotJson ''World'', Json [] ''stop''] None)))"
proof -
  let ?chunks = "[NotJson ''Hello '', NotJson ''<thinking>Hmm</thinking>'', NotJson ''World'', Json [] ''stop'']"
  have 1: "?chunks \<noteq> []" by simp
  have 2: "finishes (last ?chunks)" by (simp add: finishes_def chunkContent_def)
  have 3: "4 < length (fst (transcode example_lib ''pacore-test'' ?chunks None))"
    unfolding example_stream by simp
  have 4: "fst (transcode example_lib ''pacore-test'' ?chunks None) ! 4 = ContentBlockStart 1 ThinkingBlock"
    unfolding example_stream by simp
  from content_blocks_paired[OF 1 2 3 4] show ?thesis .
qed

text \<open>
  C2 as stated fails: a chunk that carries both content and a finish reason is
  transcoded as content and the finish handler does not run; the text block it
  starts is never stopped.
\<close>

theorem content_blocks_counterexample:
  "fst (transcode example_lib ''pacore-test'' [Json ''bye'' ''stop''] None)
     = [MessageStart ''msg_u'' ''pacore-test'',
        ContentBlockStart 0 TextBlock, ContentBlockDelta 0 (TextDelta ''bye'')]"
  by code_simp

text \<open>
  C5, as the code has it: a chunk that is valid JSON with neither content nor finish
  reason leaves the state as it is and returns no event when the message has started;
  on the first call of a stream it returns \<open>message_start\<close> and sets the message
  identifier, the model and the started flag, and nothing else: the parser state, the
  buffer and the block bookkeeping are unchanged in both cases.
\<close>

theorem contentless_chunk:
  "PaCoReToClaudeResponse lib model (Json [] []) param =
     (let p = (case param of None \<Rightarrow> newParams | Some p \<Rightarrow> p)
      in if MessageStarted p then ([], Some p)
         else ([MessageStart (''msg_'' @ uuid_New lib (UUIDsDrawn p)) model],
               Some (p\<lparr>MessageID := ''msg_'' @ uuid_New lib (UUIDsDrawn p), Model := model,
                       MessageStarted := True, UUIDsDrawn := UUIDsDrawn p + 1\<rparr>)))"
  by (simp add: PaCoReToClaudeResponse_def Let_def)

text \<open>C5 at a stream whose message has started.\<close>

theorem contentless_chunk_witness:
  "PaCoReToClaudeResponse example_lib ''pacore-test'' (Json [] []) (Some (newParams\<lparr>MessageStarted := True\<rparr>))
     = ([], Some (newParams\<lparr>MessageStarted := True\<rparr>))"
  using contentless_chunk[of example_lib "''pacore-test''" "Some (newParams\<lparr>MessageStarted := True\<rparr>)"]
  by (simp add: newParams_def)

text \<open>
  C5 as stated fails on the first call of a stream: the call returns
  \<open>message_start\<close>.
\<close>

theorem contentless_chunk_counterexample:
  "fst (PaCoReToClaudeResponse example_lib ''pacore-test'' (Json [] []) None)
     = [MessageStart ''msg_u'' ''pacore-test'']"
  by code_simp

text \<open>
  C1 (the text deltas concatenate to the text outside the tags). The chunk
  \<open>Hi <\<close> ends in a possible tag prefix and is no longer than 15 bytes, so
  \<open>processBuffer\<close> withholds all of it; the finish handler closes the stream
  without flushing the buffer. No \<open>text_delta\<close> is emitted and the four bytes stay
  in the buffer.
\<close>

theorem finish_drops_withheld_text:
  "fst (transcode example_lib ''pacore-test'' [Json ''Hi <'' [], Json [] ''stop''] None)
     = [MessageStart ''msg_u'' ''pacore-test'', MessageDelta ''end_turn'', MessageStop]
   \<and> map_option Buffer (snd (transcode example_lib ''pacore-test'' [Json ''Hi <'' [], Json [] ''stop''] None))
     = Some ''Hi <''"
  by code_simp

section \<open>Properties of the transcoder: chunking\<close>

lemma Index_append_skip:
  assumes "\<forall>i < length x. \<not> prefix t (drop i (x @ c))"
  shows "Index (x @ c) t = map_option (\<lambda>i. i + length x) (Index c t)"
  using assms
proof (induction x)
  case Nil
  then show ?case by (simp add: option.map_ident)
next
  case (Cons a x)
  from Cons.prems have 0: "\<not> prefix t (a # x @ c)" by force
  from Cons.prems have "\<forall>i < length x. \<not> prefix t (drop i (x @ c))" by force
  from Cons.IH[OF this] 0 show ?case
    by (simp add: option.map_comp comp_def)
qed

lemma Index_occurrence: "Index s t = Some i \<Longrightarrow> prefix t (drop i s)"
proof (induction s arbitrary: i)
  case Nil
  then show ?case by (simp split: if_splits)
next
  case (Cons c cs)
  then show ?case by (cases "prefix t (c # cs)") auto
qed

lemma Index_None_occurrence: "Index s t = None \<Longrightarrow> i \<le> length s \<Longrightarrow> \<not> prefix t (drop i s)"
proof (induction s arbitrary: i)
  case Nil
  then show ?case by (simp split: if_splits)
next
  case (Cons c cs)
  then show ?case by (cases i) (auto split: if_splits)
qed

lemma Index_first: "Index s t = Some i \<Longrightarrow> j < i \<Longrightarrow> \<not> prefix t (drop j s)"
proof (induction s arbitrary: i j)
  case Nil
  then show ?case by (simp split: if_splits)
next
  case (Cons c cs)
  show ?case
  proof (cases "prefix t (c # cs)")
    case True
    with Cons.prems show ?thesis by simp
  next
    case False
    with Cons.prems obtain i' where i': "Index cs t = Some i'" "i = Suc i'" by auto
    show ?thesis
    proof (cases j)
      case 0
      with False show ?thesis by simp
    next
      case (Suc j')
      with Cons.prems(2) i' have "j' < i'" by simp
      from Cons.IH[OF i'(1) this] Suc show ?thesis by simp
    qed
  qed
qed

lemma Index_SomeI:
  assumes "i \<le> length s" "prefix t (drop i s)" "\<forall>j < i. \<not> prefix t (drop j s)"
  shows "Index s t = Some i"
proof (cases "Index s t")
  case None
  from Index_None_occurrence[OF None assms(1)] assms(2) show ?thesis by simp
next
  case (Some k)
  from Index_occurrence[OF Some] assms(3) have "\<not> k < i" by blast
  moreover from Index_first[OF Some, of i] assms(2) have "\<not> i < k" by blast
  ultimately show ?thesis using Some by simp
qed

lemma prefix_append_cases:
  assumes "prefix t (u @ s)"
  shows "prefix t u \<or> strict_prefix u t"
  using assms by (metis prefix_append prefix_order.less_le prefixI prefix_order.order_refl append_Nil2)

lemma Index_append_found:
  assumes "Index b t = Some i"
  shows "Index (b @ s) t = Some i"
proof (rule Index_SomeI)
  from Index_bound[OF assms] show "i \<le> length (b @ s)" by simp
  from Index_occurrence[OF assms] Index_bound[OF assms]
  show "prefix t (drop i (b @ s))" by simp
  show "\<forall>j < i. \<not> prefix t (drop j (b @ s))"
  proof (intro allI impI notI)
    fix j assume j: "j < i" and p: "prefix t (drop j (b @ s))"
    from Index_bound[OF assms] j have jl: "j + length t \<le> length b" by simp
    then have "drop j (b @ s) = drop j b @ s" by simp
    with p have "prefix t (drop j b @ s)" by simp
    moreover have "length t \<le> length (drop j b)" using jl by simp
    ultimately have "prefix t (drop j b)"
      by (metis prefix_length_prefix prefix_prefix prefix_order.order_refl)
    with Index_first[OF assms j] show False by simp
  qed
qed

lemma isPartialTag_tags:
  "isPartialTag s = (\<exists>t \<in> set tags. \<exists>i \<in> set [1..<length t]. suffix (take i t) s)"
  by (simp only: isPartialTag_def tags_def HasSuffix_def list_ex_iff)

lemma isPartialTag_iff:
  "isPartialTag s \<longleftrightarrow> (\<exists>t \<in> set tags. \<exists>i < length s. strict_prefix (drop i s) t)"
proof
  assume "isPartialTag s"
  then obtain t i where t: "t \<in> set tags" and "i \<in> set [1..<length t]" and sf: "suffix (take i t) s"
    unfolding isPartialTag_tags by blast
  then have i: "1 \<le> i" "i < length t" by simp_all
  from sf obtain pre where s: "s = pre @ take i t" by (auto simp: suffix_def)
  with i have "length pre < length s" by simp
  moreover have "drop (length pre) s = take i t" using s by simp
  moreover have "strict_prefix (take i t) t"
    using i by (metis take_is_prefix strict_prefixI length_take min.absorb2 nat_less_le)
  ultimately show "\<exists>t \<in> set tags. \<exists>i < length s. strict_prefix (drop i s) t"
    using t by metis
next
  assume "\<exists>t \<in> set tags. \<exists>i < length s. strict_prefix (drop i s) t"
  then obtain t k where t: "t \<in> set tags" and k: "k < length s" and sp: "strict_prefix (drop k s) t"
    by blast
  let ?u = "drop k s"
  from sp obtain z zs where tz: "t = ?u @ z # zs" by (auto elim: strict_prefixE')
  then have "take (length ?u) t = ?u" by simp
  moreover have "1 \<le> length ?u" using k by simp
  moreover have "length ?u < length t" by (subst tz) simp
  moreover have "suffix ?u s" by (rule suffix_drop)
  ultimately have "\<exists>i \<in> set [1..<length t]. suffix (take i t) s"
    by (metis atLeastLessThan_iff set_upt)
  with t show "isPartialTag s"
    unfolding isPartialTag_tags by blast
qed

lemma strict_prefix_appendD:
  assumes "strict_prefix (u @ s) t"
  shows "strict_prefix u t"
proof -
  from assms obtain z zs where "t = (u @ s) @ z # zs" by (auto elim: strict_prefixE')
  then have "t = u @ (s @ z # zs)" by simp
  then show ?thesis by (cases "s @ z # zs") (auto intro: strict_prefixI')
qed

lemma safe_append:
  assumes "safe st x b"
  shows "safe st x (b @ s)"
  unfolding safe_def
proof (intro allI impI conjI ballI)
  fix i t assume i: "i < length x"
  then have d: "drop i (x @ b @ s) = drop i (x @ b) @ s" by simp
  {
    assume t: "t \<in> set (searched st)"
    from assms i t have 1: "\<not> prefix t (drop i (x @ b))" by (simp add: safe_def)
    have "set (searched st) \<subseteq> set tags"
      by (cases st) (auto simp: tags_def tagThinkingStart_def tagThinkingEnd_def
          tagToolCallStart_def tagToolCallEnd_def)
    with t assms i have 2: "\<not> strict_prefix (drop i (x @ b)) t" by (auto simp: safe_def)
    from prefix_append_cases[of t "drop i (x @ b)" s] 1 2
    show "\<not> prefix t (drop i (x @ b @ s))" unfolding d by blast
  }
  {
    assume t: "t \<in> set tags"
    from assms i t have "\<not> strict_prefix (drop i (x @ b)) t" by (simp add: safe_def)
    with strict_prefix_appendD[of "drop i (x @ b)" s t]
    show "\<not> strict_prefix (drop i (x @ b @ s)) t" unfolding d by blast
  }
qed

lemma safe_Nil [simp]: "safe st [] b"
  by (simp add: safe_def)

lemma safe_Index:
  assumes "safe st x c" "t \<in> set (searched st)"
  shows "Index (x @ c) t = map_option (\<lambda>i. i + length x) (Index c t)"
  using assms by (intro Index_append_skip) (simp add: safe_def)

lemma safe_isPartialTag:
  assumes "safe st x c"
  shows "isPartialTag (x @ c) = isPartialTag c"
proof
  assume "isPartialTag (x @ c)"
  then obtain t i where t: "t \<in> set tags" and i: "i < length (x @ c)"
    and sp: "strict_prefix (drop i (x @ c)) t"
    unfolding isPartialTag_iff by blast
  from assms t sp have "\<not> i < length x" by (auto simp: safe_def)
  then have "drop i (x @ c) = drop (i - length x) c" "i - length x < length c"
    using i by simp_all
  with sp t show "isPartialTag c" unfolding isPartialTag_iff by metis
next
  assume "isPartialTag c"
  then obtain t i where t: "t \<in> set tags" and i: "i < length c"
    and sp: "strict_prefix (drop i c) t"
    unfolding isPartialTag_iff by blast
  then have "drop (i + length x) (x @ c) = drop i c" "i + length x < length (x @ c)" by simp_all
  with sp t show "isPartialTag (x @ c)" unfolding isPartialTag_iff by metis
qed

lemma safe_firstTag:
  assumes "safe StateNormal x c"
  shows "firstTag (x @ c) = map_option (\<lambda>(i, ty). (i + length x, ty)) (firstTag c)"
proof -
  have 1: "Index (x @ c) tagThinkingStart = map_option (\<lambda>i. i + length x) (Index c tagThinkingStart)"
    by (rule safe_Index[OF assms]) simp
  have 2: "Index (x @ c) tagToolCallStart = map_option (\<lambda>i. i + length x) (Index c tagToolCallStart)"
    by (rule safe_Index[OF assms]) simp
  show ?thesis
    unfolding firstTag_def 1 2 by (simp add: Let_def split: option.splits)
qed

text \<open>An occurrence that the buffer does not hold complete ends after the buffer.\<close>

lemma Index_late:
  assumes "Index b t = None" "Index (b @ s) t = Some j"
  shows "length b < j + length t"
proof (rule ccontr)
  assume "\<not> length b < j + length t"
  then have jl: "j + length t \<le> length b" by simp
  from Index_occurrence[OF assms(2)] jl have "prefix t (drop j b @ s)" by simp
  moreover have "length t \<le> length (drop j b)" using jl by simp
  ultimately have "prefix t (drop j b)"
    by (metis prefix_length_prefix prefix_prefix prefix_order.order_refl)
  with Index_None_occurrence[OF assms(1), of j] jl show False by simp
qed

lemma start_tags_differ:
  assumes "prefix tagThinkingStart u" "prefix tagToolCallStart u"
  shows False
proof -
  from prefix_same_cases[OF assms]
  show False by (simp add: tagThinkingStart_def tagToolCallStart_def)
qed

lemma firstTag_append_found:
  assumes "firstTag b = Some (i, ty)"
  shows "firstTag (b @ s) = Some (i, ty)"
proof (cases "Index b tagThinkingStart")
  case None
  with assms have u: "Index b tagToolCallStart = Some i" and ty: "ty = ''tool''"
    by (auto simp: firstTag_def split: option.splits)
  from Index_append_found[OF u] have u': "Index (b @ s) tagToolCallStart = Some i" .
  show ?thesis
  proof (cases "Index (b @ s) tagThinkingStart")
    case None
    with u' ty show ?thesis by (simp add: firstTag_def)
  next
    case (Some j)
    from Index_late[OF \<open>Index b tagThinkingStart = None\<close> Some] Index_bound[OF u]
    have "\<not> j < i" by (simp add: tagThinkingStart_def tagToolCallStart_def)
    with Some u' ty show ?thesis by (simp add: firstTag_def)
  qed
next
  case (Some t)
  from Index_append_found[OF Some] have t': "Index (b @ s) tagThinkingStart = Some t" .
  show ?thesis
  proof (cases "Index b tagToolCallStart")
    case (Some u)
    from Index_append_found[OF Some] have "Index (b @ s) tagToolCallStart = Some u" .
    with t' Some \<open>Index b tagThinkingStart = Some t\<close> assms show ?thesis
      by (simp add: firstTag_def)
  next
    case None
    with \<open>Index b tagThinkingStart = Some t\<close> assms have it: "i = t" "ty = ''thinking''"
      by (auto simp: firstTag_def)
    show ?thesis
    proof (cases "Index (b @ s) tagToolCallStart")
      case None
      with t' it show ?thesis by (simp add: firstTag_def)
    next
      case (Some j)
      from Index_late[OF \<open>Index b tagToolCallStart = None\<close> Some]
        Index_bound[OF \<open>Index b tagThinkingStart = Some t\<close>]
      have "t \<le> j" by (simp add: tagThinkingStart_def tagToolCallStart_def)
      moreover have "t \<noteq> j"
        using start_tags_differ[of "drop t (b @ s)"] Index_occurrence[OF t'] Index_occurrence[OF Some]
        by auto
      ultimately have "t < j" by simp
      with Some t' it show ?thesis by (simp add: firstTag_def)
    qed
  qed
qed

lemma split_deltas_append [simp]: "split_deltas (xs @ ys) = split_deltas xs @ split_deltas ys"
  by (simp add: split_deltas_def)

lemma split_deltas_Nil [simp]: "split_deltas [] = []"
  by (simp add: split_deltas_def)

lemma split_deltas_Cons: "split_deltas (e # es) = explode e @ split_deltas es"
  by (simp add: split_deltas_def)

subsection \<open>The functions append to \<open>results\<close> and do not read it\<close>

lemma emitTextDelta_results:
  "emitTextDelta p rs t = (fst (emitTextDelta p [] t), rs @ snd (emitTextDelta p [] t))"
  by (simp add: emitTextDelta_def Let_def)

lemma stopTextBlock_results:
  "stopTextBlock p rs = (fst (stopTextBlock p []), rs @ snd (stopTextBlock p []))"
  by (simp add: stopTextBlock_def)

lemma stopThinkingBlock_results:
  "stopThinkingBlock p rs = (fst (stopThinkingBlock p []), rs @ snd (stopThinkingBlock p []))"
  by (simp add: stopThinkingBlock_def)

lemma startThinkingBlock_results:
  "startThinkingBlock p rs = (fst (startThinkingBlock p []), rs @ snd (startThinkingBlock p []))"
  by (simp add: startThinkingBlock_def stopTextBlock_def Let_def)

lemma emitThinkingDelta_results:
  "emitThinkingDelta p rs t = (fst (emitThinkingDelta p [] t), rs @ snd (emitThinkingDelta p [] t))"
  by (simp add: emitThinkingDelta_def startThinkingBlock_def stopTextBlock_def Let_def)

lemma emitToolCall_results:
  "emitToolCall lib p rs tc = (fst (emitToolCall lib p [] tc), rs @ snd (emitToolCall lib p [] tc))"
  by (simp add: emitToolCall_def stopThinkingBlock_def stopTextBlock_def Let_def)

lemma emit_results: "emit p rs x = (fst (emit p [] x), rs @ snd (emit p [] x))"
  using emitTextDelta_results[of p rs x] emitThinkingDelta_results[of p rs x]
  by (simp add: emit_def)

lemma emit_Nil [simp]: "emit p rs [] = (p, rs)"
  by (simp add: emit_def emitTextDelta_def emitThinkingDelta_def)

lemma State_emit [simp]: "State (fst (emit p rs x)) = State p"
  by (simp add: emit_def)

lemma Buffer_emit [simp]: "Buffer (fst (emit p rs x)) = Buffer p"
  by (simp add: emit_def)

subsection \<open>The functions do not read the buffer\<close>

lemma emitTextDelta_Buffer:
  "emitTextDelta (p\<lparr>Buffer := b\<rparr>) rs t = ((fst (emitTextDelta p rs t))\<lparr>Buffer := b\<rparr>, snd (emitTextDelta p rs t))"
  by (simp add: emitTextDelta_def Let_def)

lemma emitThinkingDelta_Buffer:
  "emitThinkingDelta (p\<lparr>Buffer := b\<rparr>) rs t
     = ((fst (emitThinkingDelta p rs t))\<lparr>Buffer := b\<rparr>, snd (emitThinkingDelta p rs t))"
  by (simp add: emitThinkingDelta_def startThinkingBlock_def stopTextBlock_def Let_def)

lemma emit_Buffer:
  "emit (p\<lparr>Buffer := b\<rparr>) rs x = ((fst (emit p rs x))\<lparr>Buffer := b\<rparr>, snd (emit p rs x))"
  by (simp add: emit_def emitTextDelta_Buffer emitThinkingDelta_Buffer)

subsection \<open>ASCII text is written as it is\<close>

lemma ascii_Nil [simp]: "ascii []"
  by (simp add: ascii_def)

lemma ascii_Cons [simp]: "ascii (c # cs) \<longleftrightarrow> of_char c < (128::nat) \<and> ascii cs"
  by (simp add: ascii_def)

lemma ascii_append [simp]: "ascii (x @ y) \<longleftrightarrow> ascii x \<and> ascii y"
  by (simp add: ascii_def)

lemma ascii_take [simp]: "ascii s \<Longrightarrow> ascii (take n s)"
  using append_take_drop_id[of n s] ascii_append[of "take n s" "drop n s"] by simp

lemma ascii_drop [simp]: "ascii s \<Longrightarrow> ascii (drop n s)"
  using append_take_drop_id[of n s] ascii_append[of "take n s" "drop n s"] by simp

lemma ascii_suffix: "suffix x y \<Longrightarrow> ascii y \<Longrightarrow> ascii x"
  by (auto simp: suffix_def)

lemma ascii_concat: "ascii (concat xs) \<longleftrightarrow> (\<forall>x \<in> set xs. ascii x)"
  by (induction xs) simp_all

lemma sjson_Set_ascii [simp]: "ascii s \<Longrightarrow> sjson_Set s = s"
  by (induction s) simp_all

subsection \<open>Emitting a text in two pieces\<close>

lemma emitTextDelta_append:
  assumes "ascii x" "ascii y"
  shows "fst (emitTextDelta p [] (x @ y)) = fst (emitTextDelta (fst (emitTextDelta p [] x)) [] y)
   \<and> split_deltas (snd (emitTextDelta p [] (x @ y)))
       = split_deltas (snd (emitTextDelta p [] x))
         @ split_deltas (snd (emitTextDelta (fst (emitTextDelta p [] x)) [] y))"
  using assms
  by (cases "x = []"; cases "y = []")
     (simp_all add: emitTextDelta_def Let_def split_deltas_Cons)

lemma emitThinkingDelta_append:
  assumes "ascii x" "ascii y"
  shows "fst (emitThinkingDelta p [] (x @ y)) = fst (emitThinkingDelta (fst (emitThinkingDelta p [] x)) [] y)
   \<and> split_deltas (snd (emitThinkingDelta p [] (x @ y)))
       = split_deltas (snd (emitThinkingDelta p [] x))
         @ split_deltas (snd (emitThinkingDelta (fst (emitThinkingDelta p [] x)) [] y))"
  using assms
  by (cases "x = []"; cases "y = []")
     (simp_all add: emitThinkingDelta_def startThinkingBlock_def stopTextBlock_def Let_def split_deltas_Cons)

lemma emit_append:
  assumes "ascii x" "ascii y"
  shows "fst (emit p [] (x @ y)) = fst (emit (fst (emit p [] x)) [] y)"
    and "split_deltas (snd (emit p [] (x @ y)))
       = split_deltas (snd (emit p [] x)) @ split_deltas (snd (emit (fst (emit p [] x)) [] y))"
  using emitTextDelta_append[OF assms, of p] emitThinkingDelta_append[OF assms, of p]
  by (simp_all add: emit_def)

lemma firstTag_kind:
  assumes "firstTag c = Some (i, ty)"
  shows "ty = ''thinking'' \<or> ty = ''tool''"
  using assms by (auto simp: firstTag_def Let_def split: option.splits if_splits)

lemma emitTextDelta_Nil [simp]: "emitTextDelta p rs [] = (p, rs)"
  by (simp add: emitTextDelta_def)

lemma emitThinkingDelta_Nil [simp]: "emitThinkingDelta p rs [] = (p, rs)"
  by (simp add: emitThinkingDelta_def)

lemma body_found:
  assumes "State p \<noteq> StateInToolCall" "tagAt (State p) (Buffer p) = Some (i, ty)"
  shows "processBuffer_body lib p rs
           = Continue (enter ty (fst (emit p rs (take i (Buffer p)))) (snd (emit p rs (take i (Buffer p))))
                         (drop (i + tagLen ty) (Buffer p)))"
proof (cases "State p")
  case StateNormal
  with assms(2) have ft: "firstTag (Buffer p) = Some (i, ty)" by (simp add: tagAt_def)
  from firstTag_kind[OF ft] show ?thesis
    using StateNormal ft
    by (cases "i = 0")
       (auto simp: processBuffer_body_def Let_def split_beta emit_def enter_def tagLen_def)
next
  case StateInThinking
  with assms(2) have ix: "Index (Buffer p) tagThinkingEnd = Some i" and ty: "ty = ''end''"
    by (auto simp: tagAt_def)
  then show ?thesis
    using StateInThinking
    by (simp add: processBuffer_body_def Let_def split_beta emit_def enter_def tagLen_def)
next
  case StateInToolCall
  with assms(1) show ?thesis by simp
qed

lemma body_not_found:
  assumes "State p \<noteq> StateInToolCall" "tagAt (State p) (Buffer p) = None"
  shows "processBuffer_body lib p rs = Return (flush p rs (flushLen (Buffer p)))"
proof (cases "State p")
  case StateNormal
  with assms(2) have ft: "firstTag (Buffer p) = None" by (simp add: tagAt_def)
  show ?thesis
    using StateNormal ft
    by (simp add: processBuffer_body_def Let_def split_beta emit_def flush_def flushLen_def)
next
  case StateInThinking
  with assms(2) have ix: "Index (Buffer p) tagThinkingEnd = None"
    by (auto simp: tagAt_def)
  then show ?thesis
    using StateInThinking
    by (simp add: processBuffer_body_def Let_def split_beta emit_def flush_def flushLen_def)
next
  case StateInToolCall
  with assms(1) show ?thesis by simp
qed

lemma tagAt_safe:
  assumes "safe st x c" "st \<noteq> StateInToolCall"
  shows "tagAt st (x @ c) = map_option (\<lambda>(i, ty). (i + length x, ty)) (tagAt st c)"
proof (cases st)
  case StateNormal
  with assms safe_firstTag[of x c] show ?thesis by (simp add: tagAt_def)
next
  case StateInThinking
  with assms have "Index (x @ c) tagThinkingEnd = map_option (\<lambda>i. i + length x) (Index c tagThinkingEnd)"
    by (intro safe_Index[of st]) simp_all
  with StateInThinking show ?thesis
    by (simp add: tagAt_def option.map_comp comp_def)
next
  case StateInToolCall
  with assms show ?thesis by simp
qed

lemma tagAt_append_found:
  assumes "tagAt st b = Some (i, ty)"
  shows "tagAt st (b @ s) = Some (i, ty)"
proof (cases "st = StateInThinking")
  case True
  with assms obtain "Index b tagThinkingEnd = Some i" "ty = ''end''"
    by (auto simp: tagAt_def)
  with Index_append_found[of b tagThinkingEnd i s] True show ?thesis
    by (simp add: tagAt_def)
next
  case False
  with assms firstTag_append_found[of b i ty s] show ?thesis
    by (simp add: tagAt_def)
qed

lemma tagAt_bound:
  assumes "tagAt st b = Some (i, ty)"
  shows "i + tagLen ty \<le> length b"
proof (cases "st = StateInThinking")
  case True
  with assms obtain ix: "Index b tagThinkingEnd = Some i" and "ty = ''end''"
    by (auto simp: tagAt_def)
  with Index_bound[OF ix] show ?thesis by (simp add: tagLen_def)
next
  case False
  with assms have ft: "firstTag b = Some (i, ty)" by (simp add: tagAt_def)
  then consider "Index b tagThinkingStart = Some i" "ty = ''thinking''"
    | "Index b tagToolCallStart = Some i" "ty = ''tool''"
    by (auto simp: firstTag_def Let_def split: option.splits if_splits)
  then show ?thesis
  proof cases
    case 1
    with Index_bound[OF 1(1)] show ?thesis by (simp add: tagLen_def)
  next
    case 2
    with Index_bound[OF 2(1)] show ?thesis by (simp add: tagLen_def)
  qed
qed

lemma stopThinkingBlock_Buffer:
  "stopThinkingBlock (p\<lparr>Buffer := b\<rparr>) rs
     = ((fst (stopThinkingBlock p rs))\<lparr>Buffer := b\<rparr>, snd (stopThinkingBlock p rs))"
  by (simp add: stopThinkingBlock_def)

lemma enter_Buffer: "enter ty (p1\<lparr>Buffer := z\<rparr>) r1 rest = enter ty p1 r1 rest"
  by (simp add: enter_def stopThinkingBlock_Buffer)

lemma enter_results: "enter ty p1 r1 rest = (fst (enter ty p1 [] rest), r1 @ snd (enter ty p1 [] rest))"
  using startThinkingBlock_results[of "p1\<lparr>State := StateInThinking, Buffer := rest\<rparr>" r1]
    stopThinkingBlock_results[of p1 r1]
  by (simp add: enter_def)

lemma flush_results: "flush p rs n = (fst (flush p [] n), rs @ snd (flush p [] n))"
  using emit_results[of p rs "take n (Buffer p)"] by (simp add: flush_def)

lemma stopTextBlock_Buffer:
  "stopTextBlock (p\<lparr>Buffer := b\<rparr>) rs
     = ((fst (stopTextBlock p rs))\<lparr>Buffer := b\<rparr>, snd (stopTextBlock p rs))"
  by (simp add: stopTextBlock_def)

lemma startThinkingBlock_Buffer:
  "startThinkingBlock (p\<lparr>Buffer := b\<rparr>) rs
     = ((fst (startThinkingBlock p rs))\<lparr>Buffer := b\<rparr>, snd (startThinkingBlock p rs))"
  by (simp add: startThinkingBlock_def stopTextBlock_def Let_def)

lemma emitToolCall_Buffer:
  "emitToolCall lib (p\<lparr>Buffer := b\<rparr>) rs tc
     = ((fst (emitToolCall lib p rs tc))\<lparr>Buffer := b\<rparr>, snd (emitToolCall lib p rs tc))"
  by (simp add: emitToolCall_def stopTextBlock_def stopThinkingBlock_def Let_def)

lemma enter_rest:
  "enter ty p1 r1 rest' = ((fst (enter ty p1 r1 rest))\<lparr>Buffer := rest'\<rparr>, snd (enter ty p1 r1 rest))"
proof -
  have "startThinkingBlock (p1\<lparr>State := StateInThinking, Buffer := rest'\<rparr>) r1
          = ((fst (startThinkingBlock (p1\<lparr>State := StateInThinking, Buffer := rest\<rparr>) r1))\<lparr>Buffer := rest'\<rparr>,
             snd (startThinkingBlock (p1\<lparr>State := StateInThinking, Buffer := rest\<rparr>) r1))"
    using startThinkingBlock_Buffer[where p = "p1\<lparr>State := StateInThinking, Buffer := rest\<rparr>"
            and b = rest' and rs = r1]
    by simp
  then show ?thesis by (simp add: enter_def)
qed

lemma Buffer_enter [simp]: "Buffer (fst (enter ty p1 r1 rest)) = rest"
  by (simp add: enter_def)

lemma body_InToolCall:
  assumes "State p = StateInToolCall"
  shows "processBuffer_body lib p rs =
           (case Index (Buffer p) tagToolCallEnd of
              Some endIdx \<Rightarrow> Continue (closeToolCall lib p rs endIdx)
            | None \<Rightarrow> Return (p, rs))"
  using assms
  by (simp add: processBuffer_body_def closeToolCall_def Let_def split_beta split: option.splits)

lemma closeToolCall_results:
  "closeToolCall lib p rs i = (fst (closeToolCall lib p [] i), rs @ snd (closeToolCall lib p [] i))"
proof (cases "xml_Unmarshal lib (tagToolCallStart @ take i (Buffer p) @ tagToolCallEnd)")
  case None
  then show ?thesis by (simp add: closeToolCall_def Let_def)
next
  case (Some tc)
  with emitToolCall_results[of lib p rs tc] show ?thesis by (simp add: closeToolCall_def Let_def)
qed

lemma closeToolCall_extend:
  assumes "Index (Buffer p) tagToolCallEnd = Some i"
  shows "closeToolCall lib (p\<lparr>Buffer := Buffer p @ s\<rparr>) rs i
           = ((fst (closeToolCall lib p rs i))\<lparr>Buffer := Buffer (fst (closeToolCall lib p rs i)) @ s\<rparr>,
              snd (closeToolCall lib p rs i))"
proof -
  from Index_bound[OF assms] have b: "i + length tagToolCallEnd \<le> length (Buffer p)" .
  then have "i \<le> length (Buffer p)" by simp
  with b show ?thesis
    by (cases "xml_Unmarshal lib (tagToolCallStart @ take i (Buffer p) @ tagToolCallEnd)")
       (simp_all add: closeToolCall_def Let_def emitToolCall_Buffer)
qed

lemma body_results:
  "processBuffer_body lib p rs =
     (case processBuffer_body lib p [] of
        Continue d \<Rightarrow> Continue (fst d, rs @ snd d)
      | Return d \<Rightarrow> Return (fst d, rs @ snd d))"
proof (cases "State p = StateInToolCall")
  case True
  show ?thesis
    using closeToolCall_results[of lib p rs]
    by (simp add: body_InToolCall[OF True] split: option.splits)
next
  case False
  show ?thesis
  proof (cases "tagAt (State p) (Buffer p)")
    case None
    show ?thesis
      using flush_results[of p rs "flushLen (Buffer p)"]
      by (simp add: body_not_found[OF False None])
  next
    case (Some a)
    obtain i ty where a: "a = (i, ty)" by (cases a)
    let ?t = "take i (Buffer p)"
    have "enter ty (fst (emit p rs ?t)) (snd (emit p rs ?t)) (drop (i + tagLen ty) (Buffer p))
            = (fst (enter ty (fst (emit p [] ?t)) (snd (emit p [] ?t)) (drop (i + tagLen ty) (Buffer p))),
               rs @ snd (enter ty (fst (emit p [] ?t)) (snd (emit p [] ?t)) (drop (i + tagLen ty) (Buffer p))))"
      using emit_results[of p rs ?t]
        enter_results[of ty "fst (emit p [] ?t)" "rs @ snd (emit p [] ?t)" "drop (i + tagLen ty) (Buffer p)"]
        enter_results[of ty "fst (emit p [] ?t)" "snd (emit p [] ?t)" "drop (i + tagLen ty) (Buffer p)"]
      by simp
    then show ?thesis
      using Some a by (simp add: body_found[OF False, of i ty])
  qed
qed

lemma processBuffer_results:
  "processBuffer lib p rs = (fst (processBuffer lib p []), rs @ snd (processBuffer lib p []))"
proof (induction "length (Buffer p)" arbitrary: p rs rule: less_induct)
  case less
  show ?case
  proof (cases "length (Buffer p) > 0")
    case False
    then show ?thesis
      by (simp add: processBuffer.simps[of lib p rs] processBuffer.simps[of lib p "[]"])
  next
    case True
    show ?thesis
    proof (cases "processBuffer_body lib p []")
      case (Return d)
      with True body_results[of lib p rs] show ?thesis
        by (simp add: processBuffer.simps[of lib p rs] processBuffer.simps[of lib p "[]"])
    next
      case (Continue d)
      from processBuffer_body_Continue[OF Continue]
      have l: "length (Buffer (fst d)) < length (Buffer p)" .
      from Continue True body_results[of lib p rs]
      have 1: "processBuffer lib p rs = processBuffer lib (fst d) (rs @ snd d)"
        and 2: "processBuffer lib p [] = processBuffer lib (fst d) (snd d)"
        by (simp_all add: processBuffer.simps[of lib p rs] processBuffer.simps[of lib p "[]"] split_beta)
      from less[OF l, of "rs @ snd d"] less[OF l, of "snd d"]
      show ?thesis unfolding 1 2 by simp
    qed
  qed
qed

lemma body_extend:
  assumes "processBuffer_body lib p rs = Continue d"
  shows "processBuffer_body lib (p\<lparr>Buffer := Buffer p @ s\<rparr>) rs
           = Continue ((fst d)\<lparr>Buffer := Buffer (fst d) @ s\<rparr>, snd d)"
proof (cases "State p = StateInToolCall")
  case True
  with assms obtain i where i: "Index (Buffer p) tagToolCallEnd = Some i"
    and d: "d = closeToolCall lib p rs i"
    by (auto simp: body_InToolCall split: option.splits)
  from True have "State (p\<lparr>Buffer := Buffer p @ s\<rparr>) = StateInToolCall" by simp
  from body_InToolCall[OF this, of lib rs] Index_append_found[OF i, of s] closeToolCall_extend[OF i, of lib s rs]
  show ?thesis by (simp add: d)
next
  case False
  show ?thesis
  proof (cases "tagAt (State p) (Buffer p)")
    case None
    from body_not_found[OF False None, of lib rs] assms show ?thesis by simp
  next
    case (Some a)
    obtain i ty where a: "a = (i, ty)" by (cases a)
    with Some have f: "tagAt (State p) (Buffer p) = Some (i, ty)" by simp
    let ?b = "Buffer p"
    let ?q = "p\<lparr>Buffer := ?b @ s\<rparr>"
    from tagAt_bound[OF f] have b: "i + tagLen ty \<le> length ?b" .
    then have t: "take i (?b @ s) = take i ?b"
      and dr: "drop (i + tagLen ty) (?b @ s) = drop (i + tagLen ty) ?b @ s"
      by simp_all
    from body_found[OF False f, of lib rs] assms
    have d: "d = enter ty (fst (emit p rs (take i ?b))) (snd (emit p rs (take i ?b))) (drop (i + tagLen ty) ?b)"
      by simp
    have "State ?q \<noteq> StateInToolCall" and "tagAt (State ?q) (Buffer ?q) = Some (i, ty)"
      using False tagAt_append_found[OF f, of s] by simp_all
    from b have "i \<le> length ?b" by simp
    with body_found[OF \<open>State ?q \<noteq> StateInToolCall\<close> \<open>tagAt (State ?q) (Buffer ?q) = Some (i, ty)\<close>, of lib rs] b
    have "processBuffer_body lib ?q rs
            = Continue (enter ty (fst (emit p rs (take i ?b))) (snd (emit p rs (take i ?b)))
                          (drop (i + tagLen ty) ?b @ s))"
      by (simp add: emit_Buffer enter_Buffer)
    also have "enter ty (fst (emit p rs (take i ?b))) (snd (emit p rs (take i ?b))) (drop (i + tagLen ty) ?b @ s)
                 = ((fst d)\<lparr>Buffer := Buffer (fst d) @ s\<rparr>, snd d)"
      unfolding d
      using enter_rest[of ty "fst (emit p rs (take i ?b))" "snd (emit p rs (take i ?b))"
                "drop (i + tagLen ty) ?b @ s" "drop (i + tagLen ty) ?b"]
      by simp
    finally show ?thesis .
  qed
qed

lemma similar_refl [simp]: "similar c c"
  by (simp add: similar_def)

lemma similar_sym: "similar c d \<Longrightarrow> similar d c"
  by (simp add: similar_def)

lemma similar_trans: "similar c d \<Longrightarrow> similar d e \<Longrightarrow> similar c e"
  by (simp add: similar_def)

lemma flush_0 [simp]: "flush p rs 0 = (p, rs)"
  by (simp add: flush_def)

lemma State_flush [simp]: "State (fst (flush p rs n)) = State p"
  by (simp add: flush_def)

lemma Buffer_flush [simp]: "Buffer (fst (flush p rs n)) = drop n (Buffer p)"
  by (simp add: flush_def)

lemma similar_ahead: "similar c d \<Longrightarrow> ahead c d"
  unfolding ahead_def by (intro exI[of _ 0]) simp

lemma ahead_refl [simp]: "ahead c c"
  by (simp add: similar_ahead)

lemma ahead_similar_right: "ahead c d \<Longrightarrow> similar d e \<Longrightarrow> ahead c e"
  unfolding ahead_def using similar_trans by blast

lemma flush_similar:
  assumes "similar c d"
  shows "similar (flush (fst c) (snd c) n) (flush (fst d) (snd d) n)"
  using assms flush_results[of "fst c" "snd c" n] flush_results[of "fst d" "snd d" n]
  by (simp add: similar_def)

lemma ahead_similar_left:
  assumes "similar c c'" "ahead c d"
  shows "ahead c' d"
proof -
  from assms(2) obtain n where n: "n \<le> length (Buffer (fst c))"
    "safe (State (fst c)) (take n (Buffer (fst c))) (drop n (Buffer (fst c)))"
    "State (fst c) = StateInToolCall \<longrightarrow> n = 0"
    "similar (flush (fst c) (snd c) n) d"
    unfolding ahead_def by blast
  from assms(1) have e: "fst c' = fst c" by (simp add: similar_def)
  from flush_similar[OF similar_sym[OF assms(1)], of n] n(4)
  have "similar (flush (fst c') (snd c') n) d" by (rule similar_trans)
  with n e show ?thesis unfolding ahead_def by auto
qed

lemma processBuffer_similar:
  assumes "similar c d"
  shows "similar (processBuffer lib (fst c) (snd c)) (processBuffer lib (fst d) (snd d))"
  using assms processBuffer_results[of lib "fst c" "snd c"] processBuffer_results[of lib "fst d" "snd d"]
  by (simp add: similar_def)

lemma enter_similar:
  assumes "similar c d"
  shows "similar (enter ty (fst c) (snd c) rest) (enter ty (fst d) (snd d) rest)"
  using assms enter_results[of ty "fst c" "snd c" rest] enter_results[of ty "fst d" "snd d" rest]
  by (simp add: similar_def)

lemma flush_flush:
  assumes "ascii (Buffer p)"
  shows "similar (flush (fst (flush p rs k)) (snd (flush p rs k)) j) (flush p rs (k + j))"
proof -
  let ?b = "Buffer p"
  let ?x = "take k ?b" and ?y = "take j (drop k ?b)"
  have ax: "ascii ?x" and ay: "ascii ?y" using assms by simp_all
  have t: "take (k + j) ?b = ?x @ ?y" by (simp add: take_add)
  have d: "drop j (drop k ?b) = drop (k + j) ?b" by (simp add: add.commute)
  have 1: "fst (emit p [] (?x @ ?y)) = fst (emit (fst (emit p [] ?x)) [] ?y)"
    and 2: "split_deltas (snd (emit p [] (?x @ ?y)))
        = split_deltas (snd (emit p [] ?x)) @ split_deltas (snd (emit (fst (emit p [] ?x)) [] ?y))"
    by (rule emit_append[OF ax ay])+
  have l: "flush (fst (flush p rs k)) (snd (flush p rs k)) j
            = ((fst (emit (fst (emit p [] ?x)) [] ?y))\<lparr>Buffer := drop (k + j) ?b\<rparr>,
               rs @ snd (emit p [] ?x) @ snd (emit (fst (emit p [] ?x)) [] ?y))"
    using emit_results[of p rs ?x]
      emit_results[of "fst (emit p [] ?x)" "rs @ snd (emit p [] ?x)" ?y]
    by (simp add: flush_def emit_Buffer add.commute)
  have r: "flush p rs (k + j)
            = ((fst (emit p [] (?x @ ?y)))\<lparr>Buffer := drop (k + j) ?b\<rparr>, rs @ snd (emit p [] (?x @ ?y)))"
    using emit_results[of p rs "?x @ ?y"] by (simp add: flush_def t)
  show ?thesis unfolding l r by (simp add: similar_def 1 2)
qed

text \<open>The conditions of \<open>safe\<close> speak of the suffixes of the whole buffer.\<close>

lemma safe_iff:
  assumes "n \<le> length b"
  shows "safe st (take n b) (drop n b)
           \<longleftrightarrow> (\<forall>i < n. (\<forall>t \<in> set (searched st). \<not> prefix t (drop i b))
                         \<and> (\<forall>t \<in> set tags. \<not> strict_prefix (drop i b) t))"
  using assms by (simp add: safe_def)

lemma ahead_trans:
  assumes "ahead c d" "ahead d e" and asc: "ascii (Buffer (fst c))"
  shows "ahead c e"
proof -
  let ?b = "Buffer (fst c)" and ?st = "State (fst c)"
  from assms(1) obtain n1 where n1: "n1 \<le> length ?b"
    "safe ?st (take n1 ?b) (drop n1 ?b)" "?st = StateInToolCall \<longrightarrow> n1 = 0"
    "similar (flush (fst c) (snd c) n1) d"
    unfolding ahead_def by blast
  from n1(4) have fd: "fst d = fst (flush (fst c) (snd c) n1)" by (simp add: similar_def)
  then have bd: "Buffer (fst d) = drop n1 ?b" and sd: "State (fst d) = ?st" by simp_all
  from assms(2) obtain n2 where n2: "n2 \<le> length (drop n1 ?b)"
    "safe ?st (take n2 (drop n1 ?b)) (drop n2 (drop n1 ?b))" "?st = StateInToolCall \<longrightarrow> n2 = 0"
    "similar (flush (fst d) (snd d) n2) e"
    unfolding ahead_def bd sd by blast
  have le: "n1 + n2 \<le> length ?b" using n1(1) n2(1) by simp
  have "safe ?st (take (n1 + n2) ?b) (drop (n1 + n2) ?b)"
    unfolding safe_iff[OF le]
  proof (intro allI impI)
    fix i assume i: "i < n1 + n2"
    show "(\<forall>t \<in> set (searched ?st). \<not> prefix t (drop i ?b))
            \<and> (\<forall>t \<in> set tags. \<not> strict_prefix (drop i ?b) t)"
    proof (cases "i < n1")
      case True
      with n1(2) show ?thesis unfolding safe_iff[OF n1(1)] by blast
    next
      case False
      then have "i - n1 < n2" "drop (i - n1) (drop n1 ?b) = drop i ?b" using i by simp_all
      with n2(2) show ?thesis unfolding safe_iff[OF n2(1)] by metis
    qed
  qed
  moreover have "similar (flush (fst c) (snd c) (n1 + n2)) e"
  proof -
    have "similar (flush (fst d) (snd d) n2)
            (flush (fst (flush (fst c) (snd c) n1)) (snd (flush (fst c) (snd c) n1)) n2)"
      using flush_similar[OF similar_sym[OF n1(4)], of n2] by simp
    from similar_trans[OF this flush_flush[OF asc]]
    have "similar (flush (fst d) (snd d) n2) (flush (fst c) (snd c) (n1 + n2))" .
    from similar_trans[OF similar_sym[OF this] n2(4)] show ?thesis .
  qed
  ultimately show ?thesis
    unfolding ahead_def using le n1(3) n2(3) by (intro exI[of _ "n1 + n2"]) simp
qed

lemma tags_length: "t \<in> set tags \<Longrightarrow> length t \<le> 12"
  by (auto simp: tags_def)

lemma searched_tags: "set (searched st) \<subseteq> set tags"
  by (cases st) (auto simp: tags_def tagThinkingStart_def tagThinkingEnd_def
      tagToolCallStart_def tagToolCallEnd_def)

lemma tagAt_None_no_occurrence:
  assumes "tagAt st b = None" "st \<noteq> StateInToolCall" "t \<in> set (searched st)" "i \<le> length b"
  shows "\<not> prefix t (drop i b)"
proof -
  from assms(1,2,3) have "Index b t = None"
    by (cases st) (auto simp: tagAt_def firstTag_def Let_def split: option.splits if_splits)
  from Index_None_occurrence[OF this assms(4)] show ?thesis .
qed

lemma isPartialTag_Nil [simp]: "\<not> isPartialTag []"
  by (simp add: isPartialTag_iff)

lemma flushLen_le: "flushLen b \<le> length b"
  by (simp add: flushLen_def)

lemma flushLen_Nil [simp]: "flushLen [] = 0"
  by (simp add: flushLen_def)

lemma flushLen_safe:
  assumes "tagAt st b = None" "st \<noteq> StateInToolCall"
  shows "safe st (take (flushLen b) b) (drop (flushLen b) b)"
  unfolding safe_iff[OF flushLen_le]
proof (intro allI impI conjI ballI)
  fix i t assume i: "i < flushLen b" and t: "t \<in> set (searched st)"
  from i flushLen_le[of b] have "i \<le> length b" by simp
  from tagAt_None_no_occurrence[OF assms t this] show "\<not> prefix t (drop i b)" .
next
  fix i t assume i: "i < flushLen b" and t: "t \<in> set tags"
  show "\<not> strict_prefix (drop i b) t"
  proof (cases "isPartialTag b")
    case False
    from i flushLen_le[of b] have "i < length b" by simp
    with False t show ?thesis unfolding isPartialTag_iff by blast
  next
    case True
    with i have "i < length b - 15" by (simp add: flushLen_def)
    then have "length (drop i b) > 15" by simp
    with tags_length[OF t] have "\<not> length (drop i b) \<le> length t" by simp
    then show ?thesis
      using prefix_length_le[of "drop i b" t] by (auto simp: strict_prefix_def)
  qed
qed

lemma emit_emit:
  assumes "ascii x" "ascii y"
  shows "similar (emit (fst (emit p rs x)) (snd (emit p rs x)) y) (emit p rs (x @ y))"
  using emit_results[of p rs x] emit_results[of "fst (emit p [] x)" "rs @ snd (emit p [] x)" y]
    emit_results[of p rs "x @ y"] emit_append[OF assms, of p]
  by (simp add: similar_def)

lemma processBuffer_Return:
  assumes "Buffer p \<noteq> []" "processBuffer_body lib p rs = Return d"
  shows "processBuffer lib p rs = d"
  using assms by (simp add: processBuffer.simps[of lib p rs])

lemma processBuffer_Continue:
  assumes "Buffer p \<noteq> []" "processBuffer_body lib p rs = Continue d"
  shows "processBuffer lib p rs = processBuffer lib (fst d) (snd d)"
  using assms by (simp add: processBuffer.simps[of lib p rs] split_beta)

lemma processBuffer_Nil:
  assumes "Buffer p = []"
  shows "processBuffer lib p rs = (p, rs)"
  using assms by (simp add: processBuffer.simps[of lib p rs])

lemma processBuffer_not_found:
  assumes "State p \<noteq> StateInToolCall" "tagAt (State p) (Buffer p) = None"
  shows "processBuffer lib p rs = flush p rs (flushLen (Buffer p))"
proof (cases "Buffer p = []")
  case True
  then show ?thesis by (simp add: processBuffer_Nil)
next
  case False
  from processBuffer_Return[OF False body_not_found[OF assms]] show ?thesis .
qed

lemma tagAt_Nil [simp]: "tagAt st [] = None"
  by (simp add: tagAt_def firstTag_def tagThinkingStart_def tagToolCallStart_def tagThinkingEnd_def)

lemma ahead_flush:
  assumes "k \<le> k2" "k2 \<le> length (Buffer p)" "State p \<noteq> StateInToolCall"
    and "\<forall>i. k \<le> i \<and> i < k2 \<longrightarrow>
           (\<forall>t \<in> set (searched (State p)). \<not> prefix t (drop i (Buffer p)))
           \<and> (\<forall>t \<in> set tags. \<not> strict_prefix (drop i (Buffer p)) t)"
    and asc: "ascii (Buffer p)"
  shows "ahead (flush p rs k) (flush p rs k2)"
proof -
  let ?j = "k2 - k"
  have j: "?j \<le> length (Buffer (fst (flush p rs k)))" using assms(1,2) by simp
  have "safe (State p) (take ?j (drop k (Buffer p))) (drop ?j (drop k (Buffer p)))"
  proof -
    have "?j \<le> length (drop k (Buffer p))" using j by simp
    from safe_iff[OF this] assms(4) show ?thesis by (simp add: add.commute)
  qed
  moreover have "similar (flush (fst (flush p rs k)) (snd (flush p rs k)) ?j) (flush p rs k2)"
    using flush_flush[OF asc, of rs k ?j] assms(1) by simp
  ultimately show ?thesis
    unfolding ahead_def using j assms(3) by (intro exI[of _ ?j]) simp
qed

lemma processBuffer_ahead:
  assumes "State p \<noteq> StateInToolCall" "n \<le> length (Buffer p)"
    and "safe (State p) (take n (Buffer p)) (drop n (Buffer p))"
    and asc: "ascii (Buffer p)"
  shows "ahead (processBuffer lib p rs) (processBuffer lib (fst (flush p rs n)) (snd (flush p rs n)))"
proof -
  let ?b = "Buffer p" and ?st = "State p"
  let ?x = "take n ?b" and ?c = "drop n ?b"
  let ?q = "fst (flush p rs n)" and ?fs = "snd (flush p rs n)"
  have xc: "?x @ ?c = ?b" and lx: "length ?x = n" using assms(2) by simp_all
  have tag: "tagAt ?st ?b = map_option (\<lambda>(i, ty). (i + n, ty)) (tagAt ?st ?c)"
    using tagAt_safe[OF assms(3,1)] assms(2) by (simp add: min_def)
  have par: "isPartialTag ?b = isPartialTag ?c"
    using safe_isPartialTag[OF assms(3)] by simp
  have sq: "State ?q \<noteq> StateInToolCall" using assms(1) by simp
  show ?thesis
  proof (cases "tagAt ?st ?c")
    case None
    with tag have nb: "tagAt ?st ?b = None" by simp
    from None have nq: "tagAt (State ?q) (Buffer ?q) = None" by simp
    let ?k = "flushLen ?b" and ?k2 = "n + flushLen ?c"
    have 1: "processBuffer lib p rs = flush p rs ?k"
      by (rule processBuffer_not_found[OF assms(1) nb])
    have 2: "processBuffer lib ?q ?fs = flush ?q ?fs (flushLen ?c)"
      using processBuffer_not_found[OF sq nq, of lib ?fs] by simp
    have 3: "similar (flush ?q ?fs (flushLen ?c)) (flush p rs ?k2)"
      by (rule flush_flush[OF asc])
    have le: "?k \<le> ?k2" "?k2 \<le> length ?b"
      using assms(2) flushLen_le[of ?c] by (auto simp: flushLen_def par)
    have small: "?k = ?k2 \<or> ?k2 \<le> n"
      using assms(2) by (auto simp: flushLen_def par)
    have "ahead (flush p rs ?k) (flush p rs ?k2)"
    proof (rule ahead_flush[OF le assms(1) _ asc], intro allI impI)
      fix i assume i: "?k \<le> i \<and> i < ?k2"
      with small have "i < n" by auto
      with assms(3) show "(\<forall>t \<in> set (searched ?st). \<not> prefix t (drop i ?b))
           \<and> (\<forall>t \<in> set tags. \<not> strict_prefix (drop i ?b) t)"
        unfolding safe_iff[OF assms(2)] by blast
    qed
    from ahead_similar_right[OF this similar_sym[OF 3]] show ?thesis
      unfolding 1 2 .
  next
    case (Some a)
    obtain i ty where a: "a = (i, ty)" by (cases a)
    with Some have fc: "tagAt ?st ?c = Some (i, ty)" by simp
    with tag have fb: "tagAt ?st ?b = Some (i + n, ty)" by simp
    from tagAt_bound[OF fc] have bc: "i + tagLen ty \<le> length ?c" .
    have tl: "0 < tagLen ty"
      by (simp add: tagLen_def tagThinkingStart_def tagToolCallStart_def tagThinkingEnd_def)
    with bc have cne: "?c \<noteq> []" by auto
    then have bne: "?b \<noteq> []" by auto
    let ?y = "take i ?c"
    let ?rest = "drop (i + tagLen ty) ?c"
    have ty: "take (i + n) ?b = ?x @ ?y"
      by (subst add.commute) (simp only: take_add)
    have dr: "drop (i + n + tagLen ty) ?b = ?rest"
      by (simp add: add.commute add.left_commute)
    let ?dp = "enter ty (fst (emit p rs (?x @ ?y))) (snd (emit p rs (?x @ ?y))) ?rest"
    let ?e = "emit (fst (emit p rs ?x)) (snd (emit p rs ?x)) ?y"
    let ?dq = "enter ty (fst ?e) (snd ?e) ?rest"
    have bp: "processBuffer_body lib p rs = Continue ?dp"
      using body_found[OF assms(1) fb, of lib rs] by (simp only: ty dr)
    have "tagAt (State ?q) (Buffer ?q) = Some (i, ty)" using fc by simp
    from body_found[OF sq this, of lib ?fs]
    have bq: "processBuffer_body lib ?q ?fs = Continue ?dq"
      by (simp add: flush_def emit_Buffer enter_Buffer)
    have "similar ?dq ?dp"
      using enter_similar[OF emit_emit[of ?x ?y p rs], of ty ?rest] asc by simp
    from processBuffer_similar[OF similar_sym[OF this], of lib]
    have "similar (processBuffer lib (fst ?dp) (snd ?dp)) (processBuffer lib (fst ?dq) (snd ?dq))" .
    moreover have "processBuffer lib p rs = processBuffer lib (fst ?dp) (snd ?dp)"
      using processBuffer_Continue[OF bne bp] .
    moreover have "processBuffer lib ?q ?fs = processBuffer lib (fst ?dq) (snd ?dq)"
      using processBuffer_Continue[OF _ bq] cne by simp
    ultimately show ?thesis by (simp add: similar_ahead)
  qed
qed

subsection \<open>The buffer after a call is a suffix of the buffer before it\<close>

lemma body_suffix:
  assumes "processBuffer_body lib p rs = Continue d \<or> processBuffer_body lib p rs = Return d"
  shows "suffix (Buffer (fst d)) (Buffer p)"
proof (cases "State p = StateInToolCall")
  case True
  from assms body_InToolCall[OF True, of lib rs] show ?thesis
    by (auto simp: closeToolCall_def Let_def suffix_drop split: option.splits)
next
  case False
  show ?thesis
  proof (cases "tagAt (State p) (Buffer p)")
    case None
    from body_not_found[OF False None, of lib rs] assms show ?thesis
      by (auto simp: suffix_drop)
  next
    case (Some a)
    obtain i ty where "a = (i, ty)" by (cases a)
    with Some body_found[OF False, of i ty lib rs] assms show ?thesis
      by (auto simp: suffix_drop)
  qed
qed

lemma processBuffer_suffix: "suffix (Buffer (fst (processBuffer lib p rs))) (Buffer p)"
proof (induction "length (Buffer p)" arbitrary: p rs rule: less_induct)
  case less
  show ?case
  proof (cases "Buffer p = []")
    case True
    then show ?thesis by (simp add: processBuffer_Nil)
  next
    case False
    show ?thesis
    proof (cases "processBuffer_body lib p rs")
      case (Continue d)
      from processBuffer_body_Continue[OF Continue]
      have l: "length (Buffer (fst d)) < length (Buffer p)" .
      have "suffix (Buffer (fst d)) (Buffer p)"
        using body_suffix[of lib p rs d] Continue by simp
      with less[OF l, of "snd d"] show ?thesis
        unfolding processBuffer_Continue[OF False Continue] by (rule suffix_order.trans)
    next
      case (Return d)
      with body_suffix[of lib p rs d] show ?thesis
        unfolding processBuffer_Return[OF False Return] by simp
    qed
  qed
qed

lemma processBuffer_ascii:
  assumes "ascii (Buffer p)"
  shows "ascii (Buffer (fst (processBuffer lib p rs)))"
  using processBuffer_suffix assms by (rule ascii_suffix)

lemma feed_ascii:
  assumes "ascii (Buffer (fst c))" "ascii s"
  shows "ascii (Buffer (fst (feed lib c s)))"
  unfolding feed_def using assms by (intro processBuffer_ascii) simp

lemma flush_extend:
  assumes "n \<le> length (Buffer p)"
  shows "flush (p\<lparr>Buffer := Buffer p @ s\<rparr>) rs n
           = ((fst (flush p rs n))\<lparr>Buffer := Buffer (fst (flush p rs n)) @ s\<rparr>, snd (flush p rs n))"
  using assms by (simp add: flush_def emit_Buffer)

lemma feed_similar:
  assumes "similar c d"
  shows "similar (feed lib c s) (feed lib d s)"
proof -
  from assms have "similar ((fst c)\<lparr>Buffer := Buffer (fst c) @ s\<rparr>, snd c)
                           ((fst d)\<lparr>Buffer := Buffer (fst d) @ s\<rparr>, snd d)"
    by (simp add: similar_def)
  from processBuffer_similar[OF this, of lib] show ?thesis by (simp add: feed_def)
qed

lemma feed_ahead:
  assumes "ahead c d" and asc: "ascii (Buffer (fst c))" "ascii s"
  shows "ahead (feed lib c s) (feed lib d s)"
proof -
  let ?p = "fst c" and ?rs = "snd c"
  let ?b = "Buffer ?p"
  let ?p' = "?p\<lparr>Buffer := ?b @ s\<rparr>"
  from assms(1) obtain n where n: "n \<le> length ?b"
    "safe (State ?p) (take n ?b) (drop n ?b)" "State ?p = StateInToolCall \<longrightarrow> n = 0"
    "similar (flush ?p ?rs n) d"
    unfolding ahead_def by blast
  have asc': "ascii (Buffer ?p')" using asc by simp
  have fl: "flush ?p' ?rs n = ((fst (flush ?p ?rs n))\<lparr>Buffer := Buffer (fst (flush ?p ?rs n)) @ s\<rparr>,
                               snd (flush ?p ?rs n))"
    by (rule flush_extend[OF n(1)])
  have sim: "similar (processBuffer lib (fst (flush ?p' ?rs n)) (snd (flush ?p' ?rs n))) (feed lib d s)"
    using feed_similar[OF n(4), of lib s] by (simp add: feed_def fl)
  show ?thesis
  proof (cases "State ?p = StateInToolCall")
    case True
    with n(3) have "n = 0" by simp
    with sim have "similar (feed lib c s) (feed lib d s)" by (simp add: feed_def)
    then show ?thesis by (rule similar_ahead)
  next
    case False
    have "safe (State ?p') (take n (Buffer ?p')) (drop n (Buffer ?p'))"
      using safe_append[OF n(2), of s] n(1) by simp
    from processBuffer_ahead[OF _ _ this asc', of lib ?rs] False n(1)
    have "ahead (processBuffer lib ?p' ?rs)
                (processBuffer lib (fst (flush ?p' ?rs n)) (snd (flush ?p' ?rs n)))"
      by simp
    from ahead_similar_right[OF this sim] show ?thesis by (simp add: feed_def)
  qed
qed

lemma processBuffer_append:
  assumes "ascii (Buffer p)" "ascii s"
  shows "ahead (processBuffer lib (p\<lparr>Buffer := Buffer p @ s\<rparr>) rs) (feed lib (processBuffer lib p rs) s)"
  using assms(1)
proof (induction "length (Buffer p)" arbitrary: p rs rule: less_induct)
  case less
  let ?b = "Buffer p"
  let ?p' = "p\<lparr>Buffer := ?b @ s\<rparr>"
  have asc': "ascii (Buffer ?p')" using less.prems assms(2) by simp
  show ?case
  proof (cases "?b = []")
    case True
    then show ?thesis by (simp add: processBuffer_Nil feed_def)
  next
    case False
    then have ne': "Buffer ?p' \<noteq> []" by simp
    show ?thesis
    proof (cases "processBuffer_body lib p rs")
      case (Continue d1)
      from processBuffer_body_Continue[OF Continue]
      have l: "length (Buffer (fst d1)) < length ?b" .
      have 1: "processBuffer lib p rs = processBuffer lib (fst d1) (snd d1)"
        by (rule processBuffer_Continue[OF False Continue])
      from processBuffer_Continue[OF ne' body_extend[OF Continue, of s]]
      have 2: "processBuffer lib ?p' rs
                 = processBuffer lib ((fst d1)\<lparr>Buffer := Buffer (fst d1) @ s\<rparr>) (snd d1)"
        by simp
      have "ascii (Buffer (fst d1))"
        using body_suffix[of lib p rs d1] Continue less.prems by (auto intro: ascii_suffix)
      from less.hyps[OF l this, of "snd d1"] show ?thesis unfolding 1 2 .
    next
      case (Return d1)
      have 1: "processBuffer lib p rs = d1" by (rule processBuffer_Return[OF False Return])
      show ?thesis
      proof (cases "State p = StateInToolCall")
        case True
        with Return have "d1 = (p, rs)"
          by (auto simp: body_InToolCall split: option.splits)
        then show ?thesis unfolding 1 by (simp add: feed_def)
      next
        case nt: False
        have none: "tagAt (State p) ?b = None"
        proof (cases "tagAt (State p) ?b")
          case (Some a)
          obtain i ty where "a = (i, ty)" by (cases a)
          with Some body_found[OF nt, of i ty lib rs] Return show ?thesis by simp
        qed simp
        from body_not_found[OF nt none, of lib rs] Return
        have d1: "d1 = flush p rs (flushLen ?b)" by simp
        have "safe (State ?p') (take (flushLen ?b) (Buffer ?p')) (drop (flushLen ?b) (Buffer ?p'))"
          using safe_append[OF flushLen_safe[OF none nt], of s] flushLen_le[of ?b] by simp
        from processBuffer_ahead[OF _ _ this asc', of lib rs] nt flushLen_le[of ?b]
        have "ahead (processBuffer lib ?p' rs)
                (processBuffer lib (fst (flush ?p' rs (flushLen ?b))) (snd (flush ?p' rs (flushLen ?b))))"
          by simp
        then show ?thesis
          unfolding 1 d1 by (simp add: feed_def flush_extend[OF flushLen_le])
      qed
    qed
  qed
qed

lemma feed_append:
  assumes "Buffer (fst c) = []" "ascii w" "ascii s"
  shows "ahead (feed lib c (w @ s)) (feed lib (feed lib c w) s)"
  using processBuffer_append[of "(fst c)\<lparr>Buffer := w\<rparr>" s lib "snd c"] assms
  by (simp add: feed_def)

lemma feed_Nil:
  assumes "Buffer (fst c) = []"
  shows "feed lib c [] = c"
proof -
  have e: "(fst c)\<lparr>Buffer := Buffer (fst c) @ []\<rparr> = fst c" by simp
  show ?thesis unfolding feed_def e using assms by (simp add: processBuffer_Nil)
qed

lemma first_call:
  assumes "\<not> finishes c"
  shows "PaCoReToClaudeResponse lib model c None
           = (snd (feed lib (afterPrologue lib model) (chunkContent c)),
              Some (fst (feed lib (afterPrologue lib model) (chunkContent c))))"
proof -
  have b: "Buffer (fst (afterPrologue lib model)) = []"
    by (simp add: afterPrologue_def started_def newParams_def)
  show ?thesis
  proof (cases "chunkContent c = []")
    case True
    with assms feed_Nil[OF b, of lib] show ?thesis
      by (simp add: PaCoReToClaudeResponse_eq finishes_def param_or_new_def afterPrologue_def)
  next
    case False
    then show ?thesis
      by (simp add: PaCoReToClaudeResponse_eq param_or_new_def afterPrologue_def feed_def)
  qed
qed

lemma later_call:
  assumes "\<not> finishes c" "MessageStarted p"
  shows "(fst (PaCoReToClaudeResponse lib model c (Some p)), snd (PaCoReToClaudeResponse lib model c (Some p)))
           = (if chunkContent c = [] then ([], Some p)
              else (snd (feed lib (p, []) (chunkContent c)), Some (fst (feed lib (p, []) (chunkContent c)))))"
  using assms
  by (simp add: PaCoReToClaudeResponse_eq finishes_def param_or_new_def started_def prologue_def feed_def)

lemma feed_results:
  "feed lib (p, es) s = (fst (feed lib (p, []) s), es @ snd (feed lib (p, []) s))"
  using processBuffer_results[of lib "p\<lparr>Buffer := Buffer p @ s\<rparr>" es] by (simp add: feed_def)

lemma transcode_ahead:
  assumes "cs \<noteq> []" "\<forall>c \<in> set cs. \<not> finishes c" "ascii (concat (map chunkContent cs))"
  shows "\<exists>p. snd (transcode lib model cs None) = Some p
           \<and> ahead (feed lib (afterPrologue lib model) (concat (map chunkContent cs)))
                   (p, fst (transcode lib model cs None))"
  using assms
proof (induction cs rule: rev_nonempty_induct)
  case (single c)
  then have "\<not> finishes c" by simp
  from first_call[OF this, of lib model] show ?case by simp
next
  case (snoc c cs)
  let ?w = "concat (map chunkContent cs)" and ?s = "chunkContent c"
  let ?c0 = "afterPrologue lib model"
  from snoc.prems have nf: "\<forall>c \<in> set cs. \<not> finishes c" and nc: "\<not> finishes c"
    and aw: "ascii ?w" and as: "ascii ?s" by simp_all
  from snoc.IH[OF nf aw] obtain p where p: "snd (transcode lib model cs None) = Some p"
    and a: "ahead (feed lib ?c0 ?w) (p, fst (transcode lib model cs None))"
    by blast
  let ?es = "fst (transcode lib model cs None)"
  from transcode_blocks[OF snoc.hyps(1), of lib model None] p have ms: "MessageStarted p" by simp
  have b: "Buffer (fst ?c0) = []"
    by (simp add: afterPrologue_def started_def newParams_def)
  have tr: "transcode lib model (cs @ [c]) None
              = (?es @ fst (PaCoReToClaudeResponse lib model c (Some p)),
                 snd (PaCoReToClaudeResponse lib model c (Some p)))"
    by (simp add: transcode_append p split_beta)
  show ?case
  proof (cases "?s = []")
    case True
    with later_call[OF nc ms, of lib model] a p show ?thesis
      unfolding tr by simp
  next
    case False
    with later_call[OF nc ms, of lib model]
    have lc: "fst (PaCoReToClaudeResponse lib model c (Some p)) = snd (feed lib (p, []) ?s)"
             "snd (PaCoReToClaudeResponse lib model c (Some p)) = Some (fst (feed lib (p, []) ?s))"
      by simp_all
    have a0: "ascii (Buffer (fst ?c0))" using b by simp
    have "ahead (feed lib ?c0 (?w @ ?s)) (feed lib (feed lib ?c0 ?w) ?s)"
      by (rule feed_append[OF b aw as])
    from ahead_trans[OF this feed_ahead[OF a feed_ascii[OF a0 aw] as] feed_ascii[OF a0]] aw as
    have "ahead (feed lib ?c0 (?w @ ?s)) (feed lib (p, ?es) ?s)" by simp
    then show ?thesis
      unfolding tr lc using feed_results[of lib p ?es ?s] by simp
  qed
qed


subsection \<open>What a call leaves in the buffer\<close>

lemma isPartialTag_suffix:
  assumes "suffix b w" "isPartialTag b"
  shows "isPartialTag w"
  using assms unfolding isPartialTag_tags by (meson suffix_order.trans)

lemma isPartialTag_drop:
  assumes "isPartialTag b"
  shows "isPartialTag (drop (length b - 15) b)"
proof -
  let ?n = "length b - 15"
  from assms obtain t i where t: "t \<in> set tags" and i: "i < length b"
    and sp: "strict_prefix (drop i b) t"
    unfolding isPartialTag_iff by blast
  from sp have "length (drop i b) < length t"
    by (metis prefix_length_less)
  with tags_length[OF t] have le: "?n \<le> i" by simp
  then have "drop (i - ?n) (drop ?n b) = drop i b" by simp
  moreover from i le have "i - ?n < length (drop ?n b)" by simp
  ultimately show ?thesis
    unfolding isPartialTag_iff using t sp by metis
qed

lemma processBuffer_rest:
  "State (fst (processBuffer lib p rs)) = StateInToolCall
   \<or> Buffer (fst (processBuffer lib p rs)) = []
   \<or> isPartialTag (Buffer (fst (processBuffer lib p rs)))"
proof (induction "length (Buffer p)" arbitrary: p rs rule: less_induct)
  case less
  let ?b = "Buffer p"
  show ?case
  proof (cases "?b = []")
    case True
    then show ?thesis by (simp add: processBuffer_Nil)
  next
    case False
    show ?thesis
    proof (cases "processBuffer_body lib p rs")
      case (Continue d)
      from processBuffer_body_Continue[OF Continue]
      have l: "length (Buffer (fst d)) < length ?b" .
      from less[OF l, of "snd d"] show ?thesis
        unfolding processBuffer_Continue[OF False Continue] .
    next
      case (Return d)
      have 1: "processBuffer lib p rs = d" by (rule processBuffer_Return[OF False Return])
      show ?thesis
      proof (cases "State p = StateInToolCall")
        case True
        with Return have "d = (p, rs)"
          by (auto simp: body_InToolCall split: option.splits)
        with True show ?thesis unfolding 1 by simp
      next
        case nt: False
        have none: "tagAt (State p) ?b = None"
        proof (cases "tagAt (State p) ?b")
          case (Some a)
          obtain i ty where "a = (i, ty)" by (cases a)
          with Some body_found[OF nt, of i ty lib rs] Return show ?thesis by simp
        qed simp
        from body_not_found[OF nt none, of lib rs] Return
        have d: "d = flush p rs (flushLen ?b)" by simp
        show ?thesis
          unfolding 1 d using isPartialTag_drop[of ?b] by (simp add: flushLen_def)
      qed
    qed
  qed
qed

lemma flush_prefix:
  assumes "ascii (Buffer p)" "k \<le> k2"
  shows "prefix (split_deltas (snd (flush p rs k))) (split_deltas (snd (flush p rs k2)))"
proof -
  let ?q = "fst (flush p rs k)" and ?fs = "snd (flush p rs k)"
  from flush_flush[OF assms(1), of rs k "k2 - k"] assms(2)
  have "split_deltas (snd (flush ?q ?fs (k2 - k))) = split_deltas (snd (flush p rs k2))"
    by (simp add: similar_def)
  moreover have "snd (flush ?q ?fs (k2 - k)) = ?fs @ snd (flush ?q [] (k2 - k))"
    using flush_results[of ?q ?fs "k2 - k"] by (metis snd_conv)
  ultimately have "split_deltas (snd (flush p rs k2))
                     = split_deltas ?fs @ split_deltas (snd (flush ?q [] (k2 - k)))"
    by simp
  then show ?thesis by (rule prefixI)
qed

lemma ahead_prefix:
  assumes "ahead c d" "ahead c e" "ascii (Buffer (fst c))"
  shows "prefix (split_deltas (snd d)) (split_deltas (snd e))
         \<or> prefix (split_deltas (snd e)) (split_deltas (snd d))"
proof -
  from assms(1) obtain n1 where 1: "similar (flush (fst c) (snd c) n1) d"
    unfolding ahead_def by blast
  from assms(2) obtain n2 where 2: "similar (flush (fst c) (snd c) n2) e"
    unfolding ahead_def by blast
  from 1 2 have e: "split_deltas (snd d) = split_deltas (snd (flush (fst c) (snd c) n1))"
    "split_deltas (snd e) = split_deltas (snd (flush (fst c) (snd c) n2))"
    by (simp_all add: similar_def)
  show ?thesis
  proof (cases "n1 \<le> n2")
    case True
    from flush_prefix[OF assms(3) True] show ?thesis unfolding e by simp
  next
    case False
    then have "n2 \<le> n1" by simp
    from flush_prefix[OF assms(3) this] show ?thesis unfolding e by simp
  qed
qed

lemma ahead_nothing_withheld:
  assumes "ahead c d" "State (fst c) = StateInToolCall \<or> Buffer (fst c) = []"
  shows "similar c d"
proof -
  from assms(1) obtain n where n: "n \<le> length (Buffer (fst c))"
    "State (fst c) = StateInToolCall \<longrightarrow> n = 0" "similar (flush (fst c) (snd c) n) d"
    unfolding ahead_def by blast
  from n(1,2) assms(2) have "n = 0" by auto
  with n(3) show ?thesis by simp
qed

text \<open>
  C4, as the code has it. Take two sequences of chunks, neither empty and none of
  their chunks handled by the finish handler, that carry the same text: the contents
  the code reads in the chunks of either sequence, concatenated, are one ASCII text.
  Run each from a nil \<open>*param\<close> with the same supply of identifiers, and split every
  text and thinking delta into one delta per byte, since the code emits a delta per
  flush and so per chunk. Then one of the two event sequences is a prefix of the
  other: a run may still withhold up to 15 bytes that the other has emitted. When the
  text does not end in a proper prefix of a tag, the two event sequences are equal and
  so are the two states.
\<close>

theorem chunking_invariance:
  assumes "cs1 \<noteq> []" and "cs2 \<noteq> []"
    and "\<forall>c \<in> set cs1. \<not> finishes c" and "\<forall>c \<in> set cs2. \<not> finishes c"
    and "concat (map chunkContent cs1) = text" and "concat (map chunkContent cs2) = text"
    and "ascii text"
  shows "(prefix (split_deltas (fst (transcode lib model cs1 None)))
                 (split_deltas (fst (transcode lib model cs2 None)))
          \<or> prefix (split_deltas (fst (transcode lib model cs2 None)))
                   (split_deltas (fst (transcode lib model cs1 None))))
       \<and> (\<not> isPartialTag text \<longrightarrow>
            split_deltas (fst (transcode lib model cs1 None))
              = split_deltas (fst (transcode lib model cs2 None))
            \<and> snd (transcode lib model cs1 None) = snd (transcode lib model cs2 None))"
proof -
  let ?c0 = "afterPrologue lib model"
  let ?single = "feed lib ?c0 text"
  let ?e1 = "fst (transcode lib model cs1 None)" and ?e2 = "fst (transcode lib model cs2 None)"
  have b0: "Buffer (fst ?c0) = []"
    by (simp add: afterPrologue_def started_def newParams_def)
  from transcode_ahead[OF assms(1,3), of lib model] assms(5,7) obtain p1 where
    1: "snd (transcode lib model cs1 None) = Some p1" "ahead ?single (p1, ?e1)"
    by auto
  from transcode_ahead[OF assms(2,4), of lib model] assms(6,7) obtain p2 where
    2: "snd (transcode lib model cs2 None) = Some p2" "ahead ?single (p2, ?e2)"
    by auto
  have asc: "ascii (Buffer (fst ?single))"
    using feed_ascii[OF _ assms(7), of ?c0 lib] b0 by simp
  from ahead_prefix[OF 1(2) 2(2) asc]
  have a: "prefix (split_deltas ?e1) (split_deltas ?e2) \<or> prefix (split_deltas ?e2) (split_deltas ?e1)"
    by simp
  have b: "split_deltas ?e1 = split_deltas ?e2
           \<and> snd (transcode lib model cs1 None) = snd (transcode lib model cs2 None)"
    if np: "\<not> isPartialTag text"
  proof -
    have sf: "suffix (Buffer (fst ?single)) text"
      using processBuffer_suffix[of lib "(fst ?c0)\<lparr>Buffer := Buffer (fst ?c0) @ text\<rparr>" "snd ?c0"] b0
      by (simp add: feed_def)
    from isPartialTag_suffix[OF sf] np have "\<not> isPartialTag (Buffer (fst ?single))" by blast
    with processBuffer_rest[of lib "(fst ?c0)\<lparr>Buffer := Buffer (fst ?c0) @ text\<rparr>" "snd ?c0"]
    have r: "State (fst ?single) = StateInToolCall \<or> Buffer (fst ?single) = []"
      by (simp add: feed_def)
    from ahead_nothing_withheld[OF 1(2) r] ahead_nothing_withheld[OF 2(2) r]
    have "similar (p1, ?e1) (p2, ?e2)"
      using similar_sym similar_trans by blast
    with 1(1) 2(1) show ?thesis by (simp add: similar_def)
  qed
  from a b show ?thesis by blast
qed

text \<open>
  C4 at two texts with a thinking region, each split in two ways. The first text ends
  in an open angle bracket, which one run still withholds in a buffer of four bytes
  and the other in a buffer of one byte; the second text ends outside every tag.
\<close>

theorem chunking_invariance_witness:
  "(prefix (split_deltas (fst (transcode example_lib ''pacore-test''
              [Json ''Let me <thin'' [], Json ''king>deep</thinking>abc<'' []] None)))
           (split_deltas (fst (transcode example_lib ''pacore-test''
              [Json ''Let '' [], Json ''me <thinking>de'' [], Json ''ep</thinking>abc'' [], Json ''<'' []] None)))
    \<or> prefix (split_deltas (fst (transcode example_lib ''pacore-test''
              [Json ''Let '' [], Json ''me <thinking>de'' [], Json ''ep</thinking>abc'' [], Json ''<'' []] None)))
             (split_deltas (fst (transcode example_lib ''pacore-test''
              [Json ''Let me <thin'' [], Json ''king>deep</thinking>abc<'' []] None))))
   \<and> split_deltas (fst (transcode example_lib ''pacore-test''
          [Json ''Let me <thin'' [], Json ''king>deep</thinking>abc'' []] None))
       = split_deltas (fst (transcode example_lib ''pacore-test''
          [Json ''Let '' [], Json ''me <thinking>de'' [], Json ''ep</thinking>a'' [], Json ''bc'' []] None))
   \<and> snd (transcode example_lib ''pacore-test''
          [Json ''Let me <thin'' [], Json ''king>deep</thinking>abc'' []] None)
       = snd (transcode example_lib ''pacore-test''
          [Json ''Let '' [], Json ''me <thinking>de'' [], Json ''ep</thinking>a'' [], Json ''bc'' []] None)"
proof -
  let ?a1 = "[Json ''Let me <thin'' [], Json ''king>deep</thinking>abc<'' []]"
  let ?a2 = "[Json ''Let '' [], Json ''me <thinking>de'' [], Json ''ep</thinking>abc'' [], Json ''<'' []]"
  let ?b1 = "[Json ''Let me <thin'' [], Json ''king>deep</thinking>abc'' []]"
  let ?b2 = "[Json ''Let '' [], Json ''me <thinking>de'' [], Json ''ep</thinking>a'' [], Json ''bc'' []]"
  let ?ta = "''Let me <thinking>deep</thinking>abc<''"
  let ?tb = "''Let me <thinking>deep</thinking>abc''"
  have ne: "?a1 \<noteq> []" "?a2 \<noteq> []" "?b1 \<noteq> []" "?b2 \<noteq> []" by simp_all
  have nf: "\<forall>c \<in> set ?a1. \<not> finishes c" "\<forall>c \<in> set ?a2. \<not> finishes c"
    "\<forall>c \<in> set ?b1. \<not> finishes c" "\<forall>c \<in> set ?b2. \<not> finishes c"
    by (simp_all add: finishes_def chunkContent_def)
  have tx: "concat (map chunkContent ?a1) = ?ta" "concat (map chunkContent ?a2) = ?ta"
    "concat (map chunkContent ?b1) = ?tb" "concat (map chunkContent ?b2) = ?tb"
    by (simp_all add: chunkContent_def)
  have asc: "ascii ?ta" "ascii ?tb" by code_simp+
  have np: "\<not> isPartialTag ?tb" by code_simp
  from chunking_invariance[OF ne(1,2) nf(1,2) tx(1,2) asc(1), of example_lib "''pacore-test''"]
       chunking_invariance[OF ne(3,4) nf(3,4) tx(3,4) asc(2), of example_lib "''pacore-test''"] np
  show ?thesis by blast
qed

text \<open>
  The events of the two runs on the first text: the run that has read the open angle
  bracket together with \<open>abc\<close> has not started the text block that follows the
  thinking region, and the run that has read it alone has.
\<close>

lemma withheld_example:
  "fst (transcode example_lib ''pacore-test''
          [Json ''Let me <thin'' [], Json ''king>deep</thinking>abc<'' []] None)
     = [MessageStart ''msg_u'' ''pacore-test'',
        ContentBlockStart 0 TextBlock, ContentBlockDelta 0 (TextDelta ''Let me ''),
        ContentBlockStop 0,
        ContentBlockStart 1 ThinkingBlock, ContentBlockDelta 1 (ThinkingDelta ''deep''),
        ContentBlockStop 1]
   \<and> fst (transcode example_lib ''pacore-test''
          [Json ''Let '' [], Json ''me <thinking>de'' [], Json ''ep</thinking>abc'' [], Json ''<'' []] None)
     = [MessageStart ''msg_u'' ''pacore-test'',
        ContentBlockStart 0 TextBlock, ContentBlockDelta 0 (TextDelta ''Let ''),
        ContentBlockDelta 0 (TextDelta ''me ''), ContentBlockStop 0,
        ContentBlockStart 1 ThinkingBlock, ContentBlockDelta 1 (ThinkingDelta ''de''),
        ContentBlockDelta 1 (ThinkingDelta ''ep''), ContentBlockStop 1,
        ContentBlockStart 2 TextBlock, ContentBlockDelta 2 (TextDelta ''abc'')]"
  by code_simp

text \<open>
  Outside ASCII the property fails. The text \<open>a\<close>, \<open>e\<close> with an acute accent (the two
  bytes \<open>0xC3 0xA9\<close>), \<open>bcdefghijklmn<b>\<close> arrives in one chunk, or in two chunks of
  which the first ends after the open angle bracket. The first of the two chunks has
  17 bytes and ends in a possible tag prefix, so its first two bytes are flushed: the
  cut falls inside the accented letter, and \<open>sjson.Set\<close> writes U+FFFD for each of
  its two bytes. The text is at its end in both runs and nothing is withheld, yet
  neither event sequence is a prefix of the other.
\<close>

lemma chunking_cuts_character:
  "\<not> prefix (split_deltas (fst (transcode example_lib ''pacore-test''
                [Json (''a'' @ [CHR 0xC3, CHR 0xA9] @ ''bcdefghijklmn<'') [], Json ''b>'' []] None)))
             (split_deltas (fst (transcode example_lib ''pacore-test''
                [Json (''a'' @ [CHR 0xC3, CHR 0xA9] @ ''bcdefghijklmn<b>'') []] None)))
   \<and> \<not> prefix (split_deltas (fst (transcode example_lib ''pacore-test''
                [Json (''a'' @ [CHR 0xC3, CHR 0xA9] @ ''bcdefghijklmn<b>'') []] None)))
               (split_deltas (fst (transcode example_lib ''pacore-test''
                [Json (''a'' @ [CHR 0xC3, CHR 0xA9] @ ''bcdefghijklmn<'') [], Json ''b>'' []] None)))
   \<and> fst (transcode example_lib ''pacore-test''
          [Json (''a'' @ [CHR 0xC3, CHR 0xA9] @ ''bcdefghijklmn<'') [], Json ''b>'' []] None)
       = [MessageStart ''msg_u'' ''pacore-test'', ContentBlockStart 0 TextBlock,
          ContentBlockDelta 0 (TextDelta (''a'' @ [CHR 0xEF, CHR 0xBF, CHR 0xBD])),
          ContentBlockDelta 0 (TextDelta ([CHR 0xEF, CHR 0xBF, CHR 0xBD] @ ''bcdefghijklmn<b>''))]"
  by code_simp

text \<open>
  The text of a chunk is the text the code reads in it, not its bytes. A stream of raw
  text is cut into \<open>a\<close> and \<open>1\<close>: the second piece is valid JSON, a number, in which
  \<open>gjson\<close> finds neither a content nor a finish reason, and the call drops it.
\<close>

lemma raw_piece_read_as_json:
  "fst (transcode example_lib ''pacore-test'' [NotJson ''a1''] None)
     = [MessageStart ''msg_u'' ''pacore-test'', ContentBlockStart 0 TextBlock,
        ContentBlockDelta 0 (TextDelta ''a1'')]
   \<and> fst (transcode example_lib ''pacore-test'' [NotJson ''a'', Json [] []] None)
     = [MessageStart ''msg_u'' ''pacore-test'', ContentBlockStart 0 TextBlock,
        ContentBlockDelta 0 (TextDelta ''a'')]"
  by code_simp

text \<open>
  C4 as stated fails: the transcoder emits one delta per chunk, so the text \<open>ab\<close>
  fed as one chunk and as two chunks gives different event sequences.
\<close>

theorem chunking_counterexample:
  "fst (transcode example_lib ''pacore-test'' [Json ''ab'' []] None)
     \<noteq> fst (transcode example_lib ''pacore-test'' [Json ''a'' [], Json ''b'' []] None)"
  by code_simp
end
